theory Spec2Isabelle
  imports Complex_Main "HOL-Library.Multiset" "HOL-Library.Sublist"
    "HOL-Library.Char_ord" "HOL-Library.List_Lexorder"
begin

section \<open>Label Studio to YOLO converter (main.go)\<close>

text \<open>
  The development follows \<^verbatim>\<open>main.go\<close>: the configuration and record types, the
  dataset splitter \<^verbatim>\<open>SplitDataset\<close>, the label validator \<^verbatim>\<open>ValidateLabels\<close>, the
  pair matcher \<^verbatim>\<open>GetImageLabelPairs\<close> and the orchestrator \<^verbatim>\<open>Convert\<close>.
  What the program takes from the Go standard library (\<^verbatim>\<open>math/rand\<close>,
  \<^verbatim>\<open>strconv\<close>, \<^verbatim>\<open>bufio\<close>, \<^verbatim>\<open>time\<close>) and from \<^verbatim>\<open>yaml.v3\<close> is passed to the model
  as a record of functions, so that every general theorem holds for any behaviour of
  the library; concrete instances are given for evaluation.
\<close>

subsection \<open>float64\<close>

text \<open>
  A \<^verbatim>\<open>float64\<close> is either a finite value (kept as the rational number it denotes; the
  two zeros are identified, which no operation used here distinguishes), an infinity
  or NaN. Comparisons follow IEEE 754: every ordered comparison with NaN is false.
\<close>

datatype float64 = Finite rat | PosInf | NegInf | NaN

fun f64_less :: "float64 \<Rightarrow> float64 \<Rightarrow> bool" where
  "f64_less NaN _ = False"
| "f64_less _ NaN = False"
| "f64_less (Finite a) (Finite b) = (a < b)"
| "f64_less (Finite a) PosInf = True"
| "f64_less (Finite a) NegInf = False"
| "f64_less PosInf _ = False"
| "f64_less NegInf (Finite b) = True"
| "f64_less NegInf PosInf = True"
| "f64_less NegInf NegInf = False"

definition f64_greater :: "float64 \<Rightarrow> float64 \<Rightarrow> bool" where
  "f64_greater a b = f64_less b a"

text \<open>
  Rounding to the nearest double, ties to even. For a magnitude \<open>a\<close> the spacing of
  the doubles around it is \<open>2 ^ t\<close> with \<open>t = ulp_exp a\<close>: the exponent that brings
  \<open>a / 2 ^ t\<close> into \<open>[2 ^ 52, 2 ^ 53)\<close>, and never less than \<open>- 1074\<close> (the
  subnormal spacing).
\<close>

fun scale_up :: "nat \<Rightarrow> rat \<Rightarrow> nat" where
  "scale_up 0 a = 0"
| "scale_up (Suc k) a = (if 2 ^ 52 \<le> a then 0 else Suc (scale_up k (2 * a)))"

function scale_down :: "rat \<Rightarrow> nat" where
  "scale_down a = (if a < 2 ^ 53 then 0 else Suc (scale_down (a / 2)))"
  by pat_completeness auto
termination
proof (relation "measure (\<lambda>a. nat \<lceil>a\<rceil>)")
  show "wf (measure (\<lambda>a::rat. nat \<lceil>a\<rceil>))" by simp
next
  fix a :: rat
  assume "\<not> a < 2 ^ 53"
  then have a: "2 \<le> a" by simp
  then have "a / 2 \<le> a - 1" by simp
  then have "\<lceil>a / 2\<rceil> \<le> \<lceil>a - 1\<rceil>" by (rule ceiling_mono)
  moreover have "0 < \<lceil>a\<rceil>" using a by simp
  ultimately show "(a / 2, a) \<in> measure (\<lambda>a. nat \<lceil>a\<rceil>)" by simp
qed

declare scale_down.simps [simp del]

definition ulp_exp :: "rat \<Rightarrow> int" where
  "ulp_exp a = (if a < 2 ^ 53 then - int (scale_up 1074 a) else int (scale_down a))"

definition pow2 :: "int \<Rightarrow> rat" where
  "pow2 t = (if 0 \<le> t then 2 ^ nat t else 1 / 2 ^ nat (- t))"

definition round_half_even :: "rat \<Rightarrow> int" where
  "round_half_even y =
     (let f = \<lfloor>y\<rfloor>; d = y - of_int f
      in if d < 1 / 2 then f
         else if 1 / 2 < d then f + 1
         else if even f then f else f + 1)"

definition round64 :: "rat \<Rightarrow> float64" where
  "round64 x =
     (if x = 0 then Finite 0
      else let a = \<bar>x\<bar>; q = pow2 (ulp_exp a);
               r = of_int (round_half_even (a / q)) * q
           in if 2 ^ 1024 \<le> r then (if 0 < x then PosInf else NegInf)
              else Finite (if 0 < x then r else - r))"

text \<open>The negation \<^verbatim>\<open>-x\<close>.\<close>

fun f64_neg :: "float64 \<Rightarrow> float64" where
  "f64_neg (Finite r) = Finite (- r)"
| "f64_neg PosInf = NegInf"
| "f64_neg NegInf = PosInf"
| "f64_neg NaN = NaN"

text \<open>The conversion \<^verbatim>\<open>float64(n)\<close> of an \<^verbatim>\<open>int\<close>.\<close>

definition float64_of_int :: "int \<Rightarrow> float64" where
  "float64_of_int n = round64 (of_int n)"

text \<open>The product \<^verbatim>\<open>a * b\<close> of two \<^verbatim>\<open>float64\<close>.\<close>

fun f64_mul :: "float64 \<Rightarrow> float64 \<Rightarrow> float64" where
  "f64_mul NaN _ = NaN"
| "f64_mul _ NaN = NaN"
| "f64_mul (Finite a) (Finite b) = round64 (a * b)"
| "f64_mul (Finite a) PosInf = (if a = 0 then NaN else if 0 < a then PosInf else NegInf)"
| "f64_mul (Finite a) NegInf = (if a = 0 then NaN else if 0 < a then NegInf else PosInf)"
| "f64_mul PosInf (Finite b) = (if b = 0 then NaN else if 0 < b then PosInf else NegInf)"
| "f64_mul NegInf (Finite b) = (if b = 0 then NaN else if 0 < b then NegInf else PosInf)"
| "f64_mul PosInf PosInf = PosInf"
| "f64_mul PosInf NegInf = NegInf"
| "f64_mul NegInf PosInf = NegInf"
| "f64_mul NegInf NegInf = PosInf"

text \<open>
  The conversion \<^verbatim>\<open>int(x)\<close> of a \<^verbatim>\<open>float64\<close> discards the fraction (truncation
  towards zero). When the value does not fit a 64-bit \<^verbatim>\<open>int\<close> (and for NaN and the
  infinities) the Go specification leaves the result to the implementation: \<open>None\<close>.
\<close>

definition trunc :: "rat \<Rightarrow> int" where
  "trunc r = (if 0 \<le> r then \<lfloor>r\<rfloor> else \<lceil>r\<rceil>)"

fun int_of_float64 :: "float64 \<Rightarrow> int option" where
  "int_of_float64 (Finite r) =
     (let k = trunc r in if - (2 ^ 63) \<le> k \<and> k < 2 ^ 63 then Some k else None)"
| "int_of_float64 _ = None"

subsection \<open>Data model\<close>

text \<open>
  A path is the list of its components, as \<^verbatim>\<open>filepath.Join\<close> produces them;
  \<^verbatim>\<open>filepath.Join(p, c)\<close> is \<open>p @ [c]\<close>.
\<close>

type_synonym path = "string list"

record Config =
  SourceDir :: path
  OutputDir :: path
  TrainSplit :: float64
  Seed :: int

record LabelPair =
  ImagePath :: path
  LabelPath :: path

record ValidationStats =
  TotalFiles :: nat
  TotalAnnotations :: nat
  FilesWithAnnotations :: nat
  EmptyFiles :: nat
  InvalidLines :: nat

record YAMLConfig =
  Path :: string
  Train :: string
  Val :: string
  NC :: nat
  Names :: "string list"

text \<open>
  The library, as the program uses it. \<open>rand_Seed\<close> is the state of the default
  source after \<^verbatim>\<open>rand.Seed(seed)\<close>; \<open>rand_intn g n\<close> is one draw of an index below
  \<open>n\<close> from the source in state \<open>g\<close>, with the state after it; \<open>Atoi\<close> and
  \<open>ParseFloat\<close> give \<open>None\<close> where \<^verbatim>\<open>strconv\<close> returns an error; \<open>scan_lines\<close>
  is what a \<^verbatim>\<open>bufio.Scanner\<close> delivers for the bytes of a file: the lines, and
  whether the scan ended with an error; \<open>yaml_encode\<close> is the output of the
  \<^verbatim>\<open>yaml.v3\<close> encoder (\<open>None\<close> when it fails).
\<close>

record 'g stdlib =
  rand_Seed :: "int \<Rightarrow> 'g"
  rand_intn :: "'g \<Rightarrow> nat \<Rightarrow> nat \<times> 'g"
  Atoi :: "string \<Rightarrow> int option"
  ParseFloat :: "string \<Rightarrow> float64 option"
  scan_lines :: "string \<Rightarrow> string list \<times> bool"
  yaml_encode :: "YAMLConfig \<Rightarrow> string option"

text \<open>Run-time panics of the Go program.\<close>

datatype fault = IndexOutOfRange | SliceBoundsOutOfRange | ConversionUndefined

subsection \<open>SplitDataset\<close>

text \<open>
  \<^verbatim>\<open>rand.Shuffle(n, swap)\<close> is the Fisher-Yates loop of the library: for \<open>i\<close> from
  \<open>n - 1\<close> down to \<open>1\<close> it draws \<open>j\<close> below \<open>i + 1\<close> and calls \<open>swap i j\<close>
  (the library draws with \<^verbatim>\<open>Int63n\<close> for bounds of \<open>2 ^ 31\<close> and more and with
  \<^verbatim>\<open>int31n\<close> below; \<open>intn\<close> stands for both).
  The swap is the caller's closure; it works on a state of type \<open>'s\<close> and may panic.
\<close>

fun Shuffle_loop ::
  "('g \<Rightarrow> nat \<Rightarrow> nat \<times> 'g) \<Rightarrow> (nat \<Rightarrow> nat \<Rightarrow> 's \<Rightarrow> fault + 's) \<Rightarrow> nat \<Rightarrow> 'g \<Rightarrow> 's
     \<Rightarrow> fault + ('s \<times> 'g)" where
  "Shuffle_loop intn swap 0 g s = Inr (s, g)"
| "Shuffle_loop intn swap (Suc i) g s =
     (case intn g (Suc i + 1) of (j, g') \<Rightarrow>
        (case swap (Suc i) j s of
           Inl e \<Rightarrow> Inl e
         | Inr s' \<Rightarrow> Shuffle_loop intn swap i g' s'))"

definition Shuffle ::
  "('g \<Rightarrow> nat \<Rightarrow> nat \<times> 'g) \<Rightarrow> nat \<Rightarrow> (nat \<Rightarrow> nat \<Rightarrow> 's \<Rightarrow> fault + 's) \<Rightarrow> 'g \<Rightarrow> 's
     \<Rightarrow> fault + ('s \<times> 'g)" where
  "Shuffle intn n swap g s = Shuffle_loop intn swap (n - 1) g s"

text \<open>The closure \<^verbatim>\<open>shuffled[i], shuffled[j] = shuffled[j], shuffled[i]\<close>.\<close>

definition swap_elems :: "nat \<Rightarrow> nat \<Rightarrow> 'a list \<Rightarrow> fault + 'a list" where
  "swap_elems i j xs =
     (if i < length xs \<and> j < length xs then Inr (xs[i := xs ! j, j := xs ! i])
      else Inl IndexOutOfRange)"

text \<open>\<^verbatim>\<open>trainCount := int(float64(len(shuffled)) * c.config.TrainSplit)\<close>\<close>

definition trainCount :: "Config \<Rightarrow> nat \<Rightarrow> int option" where
  "trainCount c n = int_of_float64 (f64_mul (float64_of_int (int n)) (TrainSplit c))"

text \<open>
  \<^verbatim>\<open>SplitDataset\<close> on the value of the record list. The state of the default
  random source is an argument and a result: the function starts by seeding it.
  The slice expressions \<^verbatim>\<open>shuffled[:trainCount]\<close> and \<^verbatim>\<open>shuffled[trainCount:]\<close>
  panic unless \<open>0 \<le> trainCount \<le> len(shuffled)\<close>.
\<close>

definition SplitDataset ::
  "'g stdlib \<Rightarrow> Config \<Rightarrow> 'g \<Rightarrow> LabelPair list
     \<Rightarrow> fault + ((LabelPair list \<times> LabelPair list) \<times> 'g)" where
  "SplitDataset L c g0 pairs =
     (let g = rand_Seed L (Seed c);
          shuffled = pairs
      in case Shuffle (rand_intn L) (length shuffled) swap_elems g shuffled of
           Inl e \<Rightarrow> Inl e
         | Inr (shuffled', g') \<Rightarrow>
             (case trainCount c (length shuffled') of
                None \<Rightarrow> Inl ConversionUndefined
              | Some k \<Rightarrow>
                  if 0 \<le> k \<and> k \<le> int (length shuffled')
                  then Inr ((take (nat k) shuffled', drop (nat k) shuffled'), g')
                  else Inl SliceBoundsOutOfRange))"


subsection \<open>SplitDataset on slices\<close>

text \<open>
  The same function with the memory written out. The heap is the list of backing
  arrays, an address is an index into it, and a slice is an address with an offset,
  a length and a capacity. \<^verbatim>\<open>make\<close> allocates a new array of zero values at
  the end of the heap, \<^verbatim>\<open>copy\<close> overwrites the first elements of the destination, and
  the swap closure writes through the slice \<^verbatim>\<open>shuffled\<close>.
\<close>

type_synonym heap = "LabelPair list list"

record slice =
  arr :: nat
  off :: nat
  len :: nat
  cap :: nat

definition slice_valid :: "heap \<Rightarrow> slice \<Rightarrow> bool" where
  "slice_valid h s = (arr s < length h \<and> off s + cap s \<le> length (h ! arr s) \<and> len s \<le> cap s)"

definition slice_list :: "heap \<Rightarrow> slice \<Rightarrow> LabelPair list" where
  "slice_list h s = take (len s) (drop (off s) (h ! arr s))"

definition make_slice :: "heap \<Rightarrow> nat \<Rightarrow> heap \<times> slice" where
  "make_slice h n =
     (h @ [replicate n \<lparr>ImagePath = [], LabelPath = []\<rparr>],
      \<lparr>arr = length h, off = 0, len = n, cap = n\<rparr>)"

definition copy_slice :: "heap \<Rightarrow> slice \<Rightarrow> slice \<Rightarrow> heap" where
  "copy_slice h dst src =
     (let n = min (len dst) (len src);
          xs = take n (slice_list h src);
          a = h ! arr dst
      in h[arr dst := take (off dst) a @ xs @ drop (off dst + n) a])"

definition swap_slice :: "slice \<Rightarrow> nat \<Rightarrow> nat \<Rightarrow> heap \<Rightarrow> fault + heap" where
  "swap_slice s i j h =
     (if i < len s \<and> j < len s
      then let a = h ! arr s; x = a ! (off s + i); y = a ! (off s + j)
           in Inr (h[arr s := a[off s + i := y, off s + j := x]])
      else Inl IndexOutOfRange)"

text \<open>The slice expressions \<^verbatim>\<open>s[:k]\<close> and \<^verbatim>\<open>s[k:]\<close>.\<close>

definition slice_upto :: "slice \<Rightarrow> int \<Rightarrow> fault + slice" where
  "slice_upto s k =
     (if 0 \<le> k \<and> k \<le> int (cap s) then Inr (s\<lparr>len := nat k\<rparr>) else Inl SliceBoundsOutOfRange)"

definition slice_from :: "slice \<Rightarrow> int \<Rightarrow> fault + slice" where
  "slice_from s k =
     (if 0 \<le> k \<and> k \<le> int (len s)
      then Inr \<lparr>arr = arr s, off = off s + nat k, len = len s - nat k, cap = cap s - nat k\<rparr>
      else Inl SliceBoundsOutOfRange)"

definition SplitDataset_mem ::
  "'g stdlib \<Rightarrow> Config \<Rightarrow> 'g \<Rightarrow> heap \<Rightarrow> slice \<Rightarrow> fault + ((slice \<times> slice) \<times> 'g \<times> heap)" where
  "SplitDataset_mem L c g0 h pairs =
     (let g = rand_Seed L (Seed c) in
      case make_slice h (len pairs) of (h1, shuffled) \<Rightarrow>
        let h2 = copy_slice h1 shuffled pairs in
        (case Shuffle (rand_intn L) (len shuffled) (swap_slice shuffled) g h2 of
           Inl e \<Rightarrow> Inl e
         | Inr (h3, g') \<Rightarrow>
             (case trainCount c (len shuffled) of
                None \<Rightarrow> Inl ConversionUndefined
              | Some k \<Rightarrow>
                  (case slice_upto shuffled k of
                     Inl e \<Rightarrow> Inl e
                   | Inr trainPairs \<Rightarrow>
                       (case slice_from shuffled k of
                          Inl e \<Rightarrow> Inl e
                        | Inr valPairs \<Rightarrow> Inr ((trainPairs, valPairs), g', h3))))))"

subsection \<open>Text helpers of the \<^verbatim>\<open>strings\<close> package\<close>

text \<open>
  File contents and names are byte strings and are taken to be ASCII: white space is
  the six ASCII white-space characters, and \<^verbatim>\<open>strings.ToLower\<close> changes the letters
  \<open>A\<close> to \<open>Z\<close> only.
\<close>

definition LF :: char where
  "LF = CHR 0x0A"

definition CR :: char where
  "CR = CHR 0x0D"

definition is_space :: "char \<Rightarrow> bool" where
  "is_space c = (c \<in> set [CHR 0x09, CHR 0x0A, CHR 0x0B, CHR 0x0C, CHR 0x0D, CHR 0x20])"

definition TrimSpace :: "string \<Rightarrow> string" where
  "TrimSpace s = rev (dropWhile is_space (rev (dropWhile is_space s)))"

fun fields_acc :: "string \<Rightarrow> string \<Rightarrow> string list" where
  "fields_acc cur [] = (if cur = [] then [] else [rev cur])"
| "fields_acc cur (c # cs) =
     (if is_space c then (if cur = [] then fields_acc [] cs else rev cur # fields_acc [] cs)
      else fields_acc (c # cur) cs)"

definition Fields :: "string \<Rightarrow> string list" where
  "Fields s = fields_acc [] s"

definition to_lower_char :: "char \<Rightarrow> char" where
  "to_lower_char c =
     (case map_of (zip ''ABCDEFGHIJKLMNOPQRSTUVWXYZ'' ''abcdefghijklmnopqrstuvwxyz'') c of
        Some l \<Rightarrow> l
      | None \<Rightarrow> c)"

definition ToLower :: "string \<Rightarrow> string" where
  "ToLower s = map to_lower_char s"

definition TrimSuffix :: "string \<Rightarrow> string \<Rightarrow> string" where
  "TrimSuffix s suf = (if suffix suf s then take (length s - length suf) s else s)"

text \<open>
  \<^verbatim>\<open>filepath.Ext\<close>: the suffix of the name that begins at its last dot, empty when the
  name has no dot. \<^verbatim>\<open>filepath.Base\<close>: the last component.
\<close>

definition Ext :: "string \<Rightarrow> string" where
  "Ext name =
     (if CHR ''.'' \<in> set name then CHR ''.'' # rev (takeWhile (\<lambda>c. c \<noteq> CHR ''.'') (rev name))
      else [])"

definition Base :: "path \<Rightarrow> string" where
  "Base p = (if p = [] then ''.'' else last p)"

subsection \<open>ValidateLabels\<close>

text \<open>
  What \<^verbatim>\<open>os.Open\<close> followed by a \<^verbatim>\<open>bufio.Scanner\<close> loop yields for a path: the open
  fails, or the scanner delivers lines and ends with or without an error.
\<close>

datatype file_result = OpenError | Opened "string list" bool

text \<open>
  The coordinate loop \<^verbatim>\<open>for i := 1; i < 5; i++\<close> over the indices still to check.
  The result is \<^verbatim>\<open>allValid\<close> and the invalid-line counter; both failing branches
  count once and leave the loop.
\<close>

fun coord_loop :: "'g stdlib \<Rightarrow> string list \<Rightarrow> nat list \<Rightarrow> nat \<Rightarrow> bool \<times> nat" where
  "coord_loop L parts [] bad = (True, bad)"
| "coord_loop L parts (i # rest) bad =
     (case ParseFloat L (parts ! i) of
        None \<Rightarrow> (False, bad + 1)
      | Some coord \<Rightarrow>
          if f64_less coord (Finite 0) \<or> f64_greater coord (Finite 1) then (False, bad + 1)
          else coord_loop L parts rest bad)"

text \<open>
  The body of the scanner loop for one line. The state is the pair of
  \<^verbatim>\<open>stats.InvalidLines\<close> and the local \<^verbatim>\<open>validLines\<close>.
\<close>

definition validate_line :: "'g stdlib \<Rightarrow> nat \<times> nat \<Rightarrow> string \<Rightarrow> nat \<times> nat" where
  "validate_line L st raw =
     (case st of (bad, validLines) \<Rightarrow>
        let line = TrimSpace raw in
        if line = [] then (bad, validLines)
        else
          let parts = Fields line in
          if length parts \<noteq> 5 then (bad + 1, validLines)
          else
            (case Atoi L (parts ! 0) of
               None \<Rightarrow> (bad + 1, validLines)
             | Some class_id \<Rightarrow>
                 (case coord_loop L parts [1, 2, 3, 4] bad of
                    (allValid, bad') \<Rightarrow>
                      if allValid then (bad', validLines + 1) else (bad', validLines))))"

text \<open>The body of the loop over the records.\<close>

definition validate_file ::
  "'g stdlib \<Rightarrow> (path \<Rightarrow> file_result) \<Rightarrow> ValidationStats \<Rightarrow> LabelPair
     \<Rightarrow> ValidationStats" where
  "validate_file L opener stats pair =
     (case opener (LabelPath pair) of
        OpenError \<Rightarrow> stats\<lparr>InvalidLines := InvalidLines stats + 1\<rparr>
      | Opened lines scan_err \<Rightarrow>
          (case foldl (validate_line L) (InvalidLines stats, 0) lines of
             (bad, validLines) \<Rightarrow>
               if scan_err then stats\<lparr>InvalidLines := bad + 1\<rparr>
               else
                 let stats' = stats\<lparr>InvalidLines := bad,
                                     TotalAnnotations := TotalAnnotations stats + validLines\<rparr>
                 in if 0 < validLines
                    then stats'\<lparr>FilesWithAnnotations := FilesWithAnnotations stats' + 1\<rparr>
                    else stats'\<lparr>EmptyFiles := EmptyFiles stats' + 1\<rparr>))"

datatype error =
    RequiredDirNotFound path
  | RequiredFileNotFound path
  | OpenClassesFailed
  | ReadClassesFailed
  | ScanImagesFailed
  | NoValidPairs
  | CreateDirFailed path
  | CopyImageFailed path
  | CopyLabelFailed path
  | CreateYAMLFailed
  | EncodeYAMLFailed

text \<open>
  \<^verbatim>\<open>ValidateLabels\<close> returns the statistics and an error value; the counters are
  Go \<^verbatim>\<open>int\<close>s that only count up from zero, modelled as natural numbers.
\<close>

definition ValidateLabels ::
  "'g stdlib \<Rightarrow> (path \<Rightarrow> file_result) \<Rightarrow> LabelPair list \<Rightarrow> error + ValidationStats" where
  "ValidateLabels L opener pairs =
     Inr (foldl (validate_file L opener)
            \<lparr>TotalFiles = length pairs, TotalAnnotations = 0, FilesWithAnnotations = 0,
             EmptyFiles = 0, InvalidLines = 0\<rparr>
            pairs)"


text \<open>
  The condition under which the coordinate loop accepts a token, and the records
  that the loop over the records leaves out of both file counters.
\<close>

definition coord_accepted :: "'g stdlib \<Rightarrow> string \<Rightarrow> bool" where
  "coord_accepted L tok =
     (case ParseFloat L tok of
        None \<Rightarrow> False
      | Some x \<Rightarrow> \<not> f64_less x (Finite 0) \<and> \<not> f64_greater x (Finite 1))"

definition unreadable :: "(path \<Rightarrow> file_result) \<Rightarrow> LabelPair \<Rightarrow> bool" where
  "unreadable opener pair =
     (case opener (LabelPath pair) of OpenError \<Rightarrow> True | Opened lines scan_err \<Rightarrow> scan_err)"

subsection \<open>An instance of the library\<close>

text \<open>
  \<^verbatim>\<open>strconv.Atoi\<close>: an optional sign and one or more decimal digits, the value
  within the 64-bit range.
\<close>

definition digit_val :: "char \<Rightarrow> nat option" where
  "digit_val c = map_of (zip ''0123456789'' [0, 1, 2, 3, 4, 5, 6, 7, 8, 9]) c"

fun digits_val :: "nat \<Rightarrow> string \<Rightarrow> nat option" where
  "digits_val acc [] = Some acc"
| "digits_val acc (c # cs) =
     (case digit_val c of None \<Rightarrow> None | Some d \<Rightarrow> digits_val (10 * acc + d) cs)"

definition split_sign :: "string \<Rightarrow> bool \<times> string" where
  "split_sign s =
     (case s of
        [] \<Rightarrow> (False, s)
      | c # r \<Rightarrow> if c = CHR ''-'' then (True, r) else if c = CHR ''+'' then (False, r) else (False, s))"

definition go_Atoi :: "string \<Rightarrow> int option" where
  "go_Atoi s =
     (case split_sign s of (neg, ds) \<Rightarrow>
        if ds = [] then None
        else
          (case digits_val 0 ds of
             None \<Rightarrow> None
           | Some v \<Rightarrow>
               let k = (if neg then - int v else int v)
               in if - (2 ^ 63) \<le> k \<and> k < 2 ^ 63 then Some k else None))"

text \<open>
  \<^verbatim>\<open>strconv.ParseFloat(s, 64)\<close>: \<^verbatim>\<open>NaN\<close>, a signed \<^verbatim>\<open>Inf\<close> or \<^verbatim>\<open>Infinity\<close> in any
  letter case, or a decimal number with an optional fraction and exponent, rounded
  to the nearest double; a number that rounds to an infinity is a range error.
  The hexadecimal form and digit-separating underscores, which the library also
  reads, are left out of this instance.
\<close>

definition is_digit :: "char \<Rightarrow> bool" where
  "is_digit c = (digit_val c \<noteq> None)"

definition pow10 :: "int \<Rightarrow> rat" where
  "pow10 e = (if 0 \<le> e then 10 ^ nat e else 1 / 10 ^ nat (- e))"

definition parse_exponent :: "string \<Rightarrow> int option" where
  "parse_exponent s =
     (case s of
        [] \<Rightarrow> Some 0
      | c # r \<Rightarrow>
          if c \<noteq> CHR ''e'' then None
          else
            (case split_sign r of (neg, ds) \<Rightarrow>
               if ds = [] then None
               else
                 (case digits_val 0 ds of
                    None \<Rightarrow> None
                  | Some v \<Rightarrow> Some (if neg then - int v else int v))))"

definition parse_decimal :: "string \<Rightarrow> rat option" where
  "parse_decimal s =
     (let ip = takeWhile is_digit s;
          r1 = dropWhile is_digit s;
          fp = (case r1 of [] \<Rightarrow> [] | c # t \<Rightarrow> if c = CHR ''.'' then takeWhile is_digit t else []);
          r2 = (case r1 of [] \<Rightarrow> [] | c # t \<Rightarrow> if c = CHR ''.'' then dropWhile is_digit t else r1)
      in if ip = [] \<and> fp = [] then None
         else
           (case (digits_val 0 (ip @ fp), parse_exponent r2) of
              (Some m, Some e) \<Rightarrow> Some (of_nat m * pow10 (e - int (length fp)))
            | _ \<Rightarrow> None))"

definition go_ParseFloat :: "string \<Rightarrow> float64 option" where
  "go_ParseFloat s =
     (let low = ToLower s in
      if low = ''nan'' then Some NaN
      else
        (case split_sign low of (neg, body) \<Rightarrow>
           if body = ''inf'' \<or> body = ''infinity'' then Some (if neg then NegInf else PosInf)
           else
             (case parse_decimal body of
                None \<Rightarrow> None
              | Some q \<Rightarrow>
                  (case round64 (if neg then - q else q) of
                     Finite r \<Rightarrow> Some (Finite r)
                   | _ \<Rightarrow> None))))"

text \<open>
  \<^verbatim>\<open>bufio.Scanner\<close> with the default line splitter: lines end at a line feed, a
  trailing carriage return is dropped, a last line without line feed is delivered
  when it is not empty, and a line that does not fit the buffer of 64 KiB ends the
  scan with an error.
\<close>

fun split_lines :: "string \<Rightarrow> string \<Rightarrow> string list" where
  "split_lines cur [] = (if cur = [] then [] else [rev cur])"
| "split_lines cur (c # cs) =
     (if c = LF then rev cur # split_lines [] cs else split_lines (c # cur) cs)"

definition dropCR :: "string \<Rightarrow> string" where
  "dropCR l = (if l \<noteq> [] \<and> last l = CR then butlast l else l)"

definition go_scan_lines :: "string \<Rightarrow> string list \<times> bool" where
  "go_scan_lines bytes =
     (let ls = split_lines [] bytes;
          ok = takeWhile (\<lambda>l. length l < 65536) ls
      in (map dropCR ok, length ok < length ls))"

text \<open>
  The \<^verbatim>\<open>yaml.v3\<close> encoder with indentation 2, for strings that need no quoting.
\<close>

definition digit_char :: "nat \<Rightarrow> char" where
  "digit_char d = ''0123456789'' ! d"

function show_nat :: "nat \<Rightarrow> string" where
  "show_nat n = (if n < 10 then [digit_char n] else show_nat (n div 10) @ [digit_char (n mod 10)])"
  by pat_completeness auto
termination
  by (relation "measure id") auto

declare show_nat.simps [simp del]

definition go_yaml_encode :: "YAMLConfig \<Rightarrow> string option" where
  "go_yaml_encode y =
     Some (''path: '' @ Path y @ [LF] @
           ''train: '' @ Train y @ [LF] @
           ''val: '' @ Val y @ [LF] @
           ''nc: '' @ show_nat (NC y) @ [LF] @
           (if Names y = [] then ''names: []'' @ [LF]
            else ''names:'' @ [LF] @ concat (map (\<lambda>n. ''  - '' @ n @ [LF]) (Names y))))"

text \<open>
  A linear congruential generator stands in for the default source of
  \<^verbatim>\<open>math/rand\<close>; the theorems use only that a draw below \<open>n\<close> is below \<open>n\<close>.
\<close>

definition lcg_Seed :: "int \<Rightarrow> nat" where
  "lcg_Seed s = nat (s mod 2147483648)"

definition lcg_intn :: "nat \<Rightarrow> nat \<Rightarrow> nat \<times> nat" where
  "lcg_intn g n = (g mod n, (g * 1103515245 + 12345) mod 2147483648)"

definition go_lib :: "nat stdlib" where
  "go_lib = \<lparr>rand_Seed = lcg_Seed, rand_intn = lcg_intn, Atoi = go_Atoi,
             ParseFloat = go_ParseFloat, scan_lines = go_scan_lines,
             yaml_encode = go_yaml_encode\<rparr>"


subsection \<open>The file system\<close>

text \<open>
  The file system is a list of entries, newest first; the working directory \<open>[]\<close>
  always exists. An operation fails for structural reasons only (a missing entry, a
  file where a directory is needed); permissions and device errors are not modelled.
\<close>

datatype node = File string | Dir

type_synonym fs = "(path \<times> node) list"

definition lookup :: "fs \<Rightarrow> path \<Rightarrow> node option" where
  "lookup fs p = (if p = [] then Some Dir else map_of fs p)"

definition write_node :: "path \<Rightarrow> node \<Rightarrow> fs \<Rightarrow> fs" where
  "write_node p n fs = (p, n) # fs"

text \<open>\<^verbatim>\<open>os.Open\<close> and the scanner loop on a path of the file system.\<close>

definition open_scan :: "'g stdlib \<Rightarrow> fs \<Rightarrow> path \<Rightarrow> file_result" where
  "open_scan L fs p =
     (case lookup fs p of
        None \<Rightarrow> OpenError
      | Some Dir \<Rightarrow> Opened [] True
      | Some (File bytes) \<Rightarrow> (case scan_lines L bytes of (ls, e) \<Rightarrow> Opened ls e))"

text \<open>
  \<^verbatim>\<open>os.MkdirAll\<close>: succeeds at once on a directory, fails on a file, and otherwise
  makes the parent and then the directory.
\<close>

function MkdirAll :: "fs \<Rightarrow> path \<Rightarrow> fs option" where
  "MkdirAll fs p =
     (case lookup fs p of
        Some Dir \<Rightarrow> Some fs
      | Some (File bytes) \<Rightarrow> None
      | None \<Rightarrow>
          (case MkdirAll fs (butlast p) of
             None \<Rightarrow> None
           | Some fs' \<Rightarrow> Some (write_node p Dir fs')))"
  by pat_completeness auto
termination
proof (relation "measure (\<lambda>(fs, p). length p)")
  show "wf (measure (\<lambda>(fs :: fs, p :: path). length p))" by simp
next
  fix fs :: fs and p :: path
  assume "lookup fs p = None"
  then have "p \<noteq> []" by (auto simp: lookup_def)
  then show "((fs, butlast p), (fs, p)) \<in> measure (\<lambda>(fs, p). length p)" by simp
qed

declare MkdirAll.simps [simp del]

text \<open>\<^verbatim>\<open>os.Create\<close>: the parent must be a directory and the path must not be one; the file is emptied.\<close>

definition create_file :: "fs \<Rightarrow> path \<Rightarrow> fs option" where
  "create_file fs p =
     (if p = [] then None
      else
        (case lookup fs (butlast p) of
           Some Dir \<Rightarrow>
             (case lookup fs p of
                Some Dir \<Rightarrow> None
              | _ \<Rightarrow> Some (write_node p (File []) fs))
         | _ \<Rightarrow> None))"

text \<open>
  \<^verbatim>\<open>copyFile\<close>: open the source, create the destination, copy. Reading a directory
  fails after the destination has been created. The result is whether the error
  value is \<^verbatim>\<open>nil\<close>, and the file system.
\<close>

definition copyFile :: "fs \<Rightarrow> path \<Rightarrow> path \<Rightarrow> bool \<times> fs" where
  "copyFile fs src dst =
     (case lookup fs src of
        None \<Rightarrow> (False, fs)
      | Some n \<Rightarrow>
          (case create_file fs dst of
             None \<Rightarrow> (False, fs)
           | Some fs1 \<Rightarrow>
               (case lookup fs1 src of
                  Some (File bytes) \<Rightarrow> (True, write_node dst (File bytes) fs1)
                | _ \<Rightarrow> (False, fs1))))"

subsection \<open>The stages of the pipeline\<close>

definition imagesDir :: "Config \<Rightarrow> path" where
  "imagesDir c = SourceDir c @ [''images'']"

definition labelsDir :: "Config \<Rightarrow> path" where
  "labelsDir c = SourceDir c @ [''labels'']"

definition classesPath :: "Config \<Rightarrow> path" where
  "classesPath c = SourceDir c @ [''classes.txt'']"

definition ValidateSourceStructure :: "fs \<Rightarrow> Config \<Rightarrow> error option" where
  "ValidateSourceStructure fs c =
     (case find (\<lambda>d. lookup fs d = None) [imagesDir c, labelsDir c] of
        Some d \<Rightarrow> Some (RequiredDirNotFound d)
      | None \<Rightarrow>
          (case find (\<lambda>f. lookup fs f = None) [classesPath c] of
             Some f \<Rightarrow> Some (RequiredFileNotFound f)
           | None \<Rightarrow> None))"

definition LoadClasses :: "'g stdlib \<Rightarrow> fs \<Rightarrow> Config \<Rightarrow> error + string list" where
  "LoadClasses L fs c =
     (case open_scan L fs (classesPath c) of
        OpenError \<Rightarrow> Inl OpenClassesFailed
      | Opened lines scan_err \<Rightarrow>
          if scan_err then Inl ReadClassesFailed
          else Inr (filter (\<lambda>line. line \<noteq> []) (map TrimSpace lines)))"

text \<open>
  \<^verbatim>\<open>filepath.Walk\<close> visits the root and everything below it that is reached through
  directories, in lexical order.
\<close>

definition descends :: "fs \<Rightarrow> path \<Rightarrow> path \<Rightarrow> bool" where
  "descends fs start p =
     list_all (\<lambda>q. prefix start q \<longrightarrow> lookup fs q = Some Dir) (butlast (prefixes p))"

definition walk_paths :: "fs \<Rightarrow> path \<Rightarrow> path list" where
  "walk_paths fs start =
     sort (remdups (filter (\<lambda>p. prefix start p \<and> descends fs start p) (map fst fs)))"

definition imageExtensions :: "string list" where
  "imageExtensions = [''.jpg'', ''.jpeg'', ''.png'', ''.bmp'', ''.tiff'', ''.webp'']"

text \<open>The callback of the walk, for one visited path.\<close>

definition visit :: "fs \<Rightarrow> path \<Rightarrow> LabelPair list \<Rightarrow> path \<Rightarrow> LabelPair list" where
  "visit fs ldir pairs p =
     (case lookup fs p of
        Some (File bytes) \<Rightarrow>
          let name = Base p;
              ext = ToLower (Ext name)
          in if ext \<notin> set imageExtensions then pairs
             else
               let baseName = TrimSuffix name ext;
                   labelPath = ldir @ [baseName @ ''.txt'']
               in if lookup fs labelPath \<noteq> None
                  then pairs @ [\<lparr>ImagePath = p, LabelPath = labelPath\<rparr>]
                  else pairs
      | _ \<Rightarrow> pairs)"

text \<open>The label path that the callback computes for a visited path.\<close>

definition label_path_for :: "path \<Rightarrow> path \<Rightarrow> path" where
  "label_path_for ldir p = ldir @ [TrimSuffix (Base p) (ToLower (Ext (Base p))) @ ''.txt'']"

definition GetImageLabelPairs :: "fs \<Rightarrow> Config \<Rightarrow> error + LabelPair list" where
  "GetImageLabelPairs fs c =
     (if lookup fs (imagesDir c) = None then Inl ScanImagesFailed
      else Inr (foldl (visit fs (labelsDir c)) [] (walk_paths fs (imagesDir c))))"

fun MkdirAll_each :: "fs \<Rightarrow> path list \<Rightarrow> error option \<times> fs" where
  "MkdirAll_each fs [] = (None, fs)"
| "MkdirAll_each fs (d # ds) =
     (case MkdirAll fs d of
        None \<Rightarrow> (Some (CreateDirFailed d), fs)
      | Some fs' \<Rightarrow> MkdirAll_each fs' ds)"

definition CreateYOLOStructure :: "Config \<Rightarrow> fs \<Rightarrow> error option \<times> fs" where
  "CreateYOLOStructure c fs =
     MkdirAll_each fs
       [OutputDir c @ [''images'', ''train''], OutputDir c @ [''images'', ''val''],
        OutputDir c @ [''labels'', ''train''], OutputDir c @ [''labels'', ''val'']]"

fun CopyFiles_loop :: "path \<Rightarrow> path \<Rightarrow> fs \<Rightarrow> LabelPair list \<Rightarrow> error option \<times> fs" where
  "CopyFiles_loop idir ldir fs [] = (None, fs)"
| "CopyFiles_loop idir ldir fs (pair # rest) =
     (case copyFile fs (ImagePath pair) (idir @ [Base (ImagePath pair)]) of
        (False, fs1) \<Rightarrow> (Some (CopyImageFailed (ImagePath pair)), fs1)
      | (True, fs1) \<Rightarrow>
          (case copyFile fs1 (LabelPath pair) (ldir @ [Base (LabelPath pair)]) of
             (False, fs2) \<Rightarrow> (Some (CopyLabelFailed (LabelPath pair)), fs2)
           | (True, fs2) \<Rightarrow> CopyFiles_loop idir ldir fs2 rest))"

definition CopyFiles :: "Config \<Rightarrow> fs \<Rightarrow> LabelPair list \<Rightarrow> string \<Rightarrow> error option \<times> fs" where
  "CopyFiles c fs pairs splitType =
     CopyFiles_loop (OutputDir c @ [''images'', splitType]) (OutputDir c @ [''labels'', splitType])
       fs pairs"

text \<open>
  \<^verbatim>\<open>CreateYAMLConfig\<close>. \<open>now\<close> is \<^verbatim>\<open>time.Now().Format(time.RFC3339)\<close> and \<open>cwd\<close> the
  working directory that \<^verbatim>\<open>filepath.Abs\<close> puts in front of the output path.
\<close>

definition path_string :: "path \<Rightarrow> string" where
  "path_string p = (if p = [] then ''/'' else concat (map (\<lambda>c. CHR ''/'' # c) p))"

definition yaml_header :: "string \<Rightarrow> string" where
  "yaml_header now =
     ''# YOLO Dataset Configuration'' @ [LF] @ ''# Generated from Label Studio export'' @ [LF] @
     ''# Generated at: '' @ now @ [LF, LF]"

definition CreateYAMLConfig ::
  "'g stdlib \<Rightarrow> string \<Rightarrow> path \<Rightarrow> Config \<Rightarrow> fs \<Rightarrow> string list \<Rightarrow> error option \<times> fs" where
  "CreateYAMLConfig L now cwd c fs classes =
     (let absOutputDir = path_string (cwd @ OutputDir c);
          config = \<lparr>Path = absOutputDir, Train = ''images/train'', Val = ''images/val'',
                    NC = length classes, Names = classes\<rparr>;
          yamlPath = OutputDir c @ [''data.yaml'']
      in case create_file fs yamlPath of
           None \<Rightarrow> (Some CreateYAMLFailed, fs)
         | Some fs1 \<Rightarrow>
             let header = yaml_header now;
                 fs2 = write_node yamlPath (File header) fs1
             in (case yaml_encode L config of
                   None \<Rightarrow> (Some EncodeYAMLFailed, fs2)
                 | Some body \<Rightarrow> (None, write_node yamlPath (File (header @ body)) fs2)))"

subsection \<open>Convert\<close>

datatype outcome = Done | Failed error | Panicked fault

text \<open>The part of \<^verbatim>\<open>Convert\<close> that writes: from \<^verbatim>\<open>CreateYOLOStructure\<close> on.\<close>

definition materialize ::
  "'g stdlib \<Rightarrow> string \<Rightarrow> path \<Rightarrow> Config \<Rightarrow> string list \<Rightarrow> LabelPair list \<Rightarrow> LabelPair list \<Rightarrow> fs
     \<Rightarrow> error option \<times> fs" where
  "materialize L now cwd c classes trainPairs valPairs fs =
     (case CreateYOLOStructure c fs of
        (Some e, fs1) \<Rightarrow> (Some e, fs1)
      | (None, fs1) \<Rightarrow>
          (case CopyFiles c fs1 trainPairs ''train'' of
             (Some e, fs2) \<Rightarrow> (Some e, fs2)
           | (None, fs2) \<Rightarrow>
               (case CopyFiles c fs2 valPairs ''val'' of
                  (Some e, fs3) \<Rightarrow> (Some e, fs3)
                | (None, fs3) \<Rightarrow> CreateYAMLConfig L now cwd c fs3 classes)))"

definition Convert ::
  "'g stdlib \<Rightarrow> string \<Rightarrow> path \<Rightarrow> Config \<Rightarrow> 'g \<times> fs \<Rightarrow> outcome \<times> 'g \<times> fs" where
  "Convert L now cwd c st =
     (case st of (g, fs) \<Rightarrow>
       (case ValidateSourceStructure fs c of
          Some e \<Rightarrow> (Failed e, g, fs)
        | None \<Rightarrow>
           (case LoadClasses L fs c of
              Inl e \<Rightarrow> (Failed e, g, fs)
            | Inr classes \<Rightarrow>
               (case GetImageLabelPairs fs c of
                  Inl e \<Rightarrow> (Failed e, g, fs)
                | Inr pairs \<Rightarrow>
                    if length pairs = 0 then (Failed NoValidPairs, g, fs)
                    else
                      (case ValidateLabels L (open_scan L fs) pairs of
                         Inl e \<Rightarrow> (Failed e, g, fs)
                       | Inr stats \<Rightarrow>
                          (case SplitDataset L c g pairs of
                             Inl f \<Rightarrow> (Panicked f, g, fs)
                           | Inr (split, g') \<Rightarrow>
                              (case materialize L now cwd c classes (fst split) (snd split) fs of
                                 (Some e, fs') \<Rightarrow> (Failed e, g', fs')
                               | (None, fs') \<Rightarrow> (Done, g', fs'))))))))"


subsection \<open>Source and output areas\<close>

text \<open>
  The paths that \<^verbatim>\<open>Convert\<close> reads are the class list and what lies at or below the
  images and labels directories. The output directory is separate from the source
  when none of these three is the output directory or an ancestor of it, and the
  output directory is not the source directory or an ancestor of it. Two file
  systems agree on the source when they hold the same at every path that is read.
\<close>

definition src_path :: "Config \<Rightarrow> path \<Rightarrow> bool" where
  "src_path c p = (prefix (imagesDir c) p \<or> prefix (labelsDir c) p \<or> prefix (classesPath c) p)"

definition separate :: "Config \<Rightarrow> bool" where
  "separate c =
     (\<not> prefix (OutputDir c) (SourceDir c)
      \<and> \<not> prefix (imagesDir c) (OutputDir c)
      \<and> \<not> prefix (labelsDir c) (OutputDir c)
      \<and> \<not> prefix (classesPath c) (OutputDir c))"

definition src_eq :: "Config \<Rightarrow> fs \<Rightarrow> fs \<Rightarrow> bool" where
  "src_eq c fs fs' = (\<forall>p. src_path c p \<longrightarrow> lookup fs p = lookup fs' p)"

text \<open>
  Relations between states of the file system during a run: every directory stays a
  directory and every file a file (\<open>persists\<close>), with the source untouched
  (\<open>ahead\<close>); and, between a state \<open>s1\<close> of a first run that ends in \<open>fs1\<close> and
  the state \<open>s2\<close> of a second run at the same point, each path holds in \<open>s2\<close>
  what it holds in \<open>s1\<close> or what it holds in \<open>fs1\<close>, and the directories of
  \<open>fs1\<close> are there (\<open>rerun_rel\<close>).
\<close>

definition persists :: "fs \<Rightarrow> fs \<Rightarrow> bool" where
  "persists fs fs' =
     ((\<forall>q. lookup fs q = Some Dir \<longrightarrow> lookup fs' q = Some Dir)
      \<and> (\<forall>q bytes. lookup fs q = Some (File bytes) \<longrightarrow> (\<exists>bytes'. lookup fs' q = Some (File bytes'))))"

definition ahead :: "Config \<Rightarrow> fs \<Rightarrow> fs \<Rightarrow> bool" where
  "ahead c fs fs' = (persists fs fs' \<and> src_eq c fs fs')"

definition rerun_rel :: "fs \<Rightarrow> fs \<Rightarrow> fs \<Rightarrow> bool" where
  "rerun_rel fs1 s1 s2 =
     ((\<forall>p. lookup s2 p = lookup s1 p \<or> lookup s2 p = lookup fs1 p)
      \<and> (\<forall>q. lookup fs1 q = Some Dir \<longrightarrow> lookup s2 q = Some Dir))"

text \<open>The path and the value that \<^verbatim>\<open>CreateYAMLConfig\<close> writes.\<close>

definition yamlPath :: "Config \<Rightarrow> path" where
  "yamlPath c = OutputDir c @ [''data.yaml'']"

definition yamlConfig :: "path \<Rightarrow> Config \<Rightarrow> string list \<Rightarrow> YAMLConfig" where
  "yamlConfig cwd c classes =
     \<lparr>Path = path_string (cwd @ OutputDir c), Train = ''images/train'', Val = ''images/val'',
      NC = length classes, Names = classes\<rparr>"

subsection \<open>The fixture of the repository's tests\<close>

text \<open>
  \<^verbatim>\<open>createTestFiles\<close> and \<^verbatim>\<open>TestFullConversion\<close>: three images with their label
  files and a class list in a temporary directory, the output directory inside it,
  a train fraction of 0.8 and the seed 42.
\<close>

definition test_config :: Config where
  "test_config =
     \<lparr>SourceDir = [''tmp''], OutputDir = [''tmp'', ''yolo_output''],
      TrainSplit = round64 (4 / 5), Seed = 42\<rparr>"

definition test_pairs :: "LabelPair list" where
  "test_pairs =
     [\<lparr>ImagePath = [''tmp'', ''images'', ''image1.jpg''],
       LabelPath = [''tmp'', ''labels'', ''image1.txt'']\<rparr>,
      \<lparr>ImagePath = [''tmp'', ''images'', ''image2.png''],
       LabelPath = [''tmp'', ''labels'', ''image2.txt'']\<rparr>,
      \<lparr>ImagePath = [''tmp'', ''images'', ''image3.jpeg''],
       LabelPath = [''tmp'', ''labels'', ''image3.txt'']\<rparr>]"

definition test_fs :: fs where
  "test_fs =
     [([''tmp''], Dir),
      ([''tmp'', ''images''], Dir),
      ([''tmp'', ''labels''], Dir),
      ([''tmp'', ''images'', ''image1.jpg''], File ''fake image data''),
      ([''tmp'', ''images'', ''image2.png''], File ''fake image data''),
      ([''tmp'', ''images'', ''image3.jpeg''], File ''fake image data''),
      ([''tmp'', ''labels'', ''image1.txt''],
         File (''0 0.5 0.5 0.3 0.3'' @ [LF] @ ''1 0.2 0.8 0.1 0.1'' @ [LF])),
      ([''tmp'', ''labels'', ''image2.txt''], File (''0 0.4 0.6 0.2 0.4'' @ [LF])),
      ([''tmp'', ''labels'', ''image3.txt''],
         File (''1 0.7 0.3 0.3 0.2'' @ [LF] @ ''0 0.1 0.9 0.1 0.1'' @ [LF])),
      ([''tmp'', ''classes.txt''], File (''book'' @ [LF] @ ''person'' @ [LF]))]"

text \<open>
  Two small exports in the working directory: one whose only image has an
  upper-case extension, and one without images.
\<close>

definition upper_config :: Config where
  "upper_config = \<lparr>SourceDir = [], OutputDir = [''yolo_dataset''], TrainSplit = round64 (4 / 5), Seed = 42\<rparr>"

definition upper_fs :: fs where
  "upper_fs =
     [([''images''], Dir),
      ([''labels''], Dir),
      ([''images'', ''photo.JPG''], File ''fake image data''),
      ([''labels'', ''photo.JPG.txt''], File []),
      ([''classes.txt''], File (''book'' @ [LF]))]"

definition empty_fs :: fs where
  "empty_fs =
     [([''images''], Dir),
      ([''labels''], Dir),
      ([''classes.txt''], File (''book'' @ [LF]))]"

text \<open>
  Two runs of \<^verbatim>\<open>Convert\<close> on the first of these exports, one second apart; the
  second run starts from the file system that the first one leaves.
\<close>

definition first_run :: "outcome \<times> nat \<times> fs" where
  "first_run = Convert go_lib ''2025-09-22T10:00:00Z'' [''home''] upper_config (0, upper_fs)"

definition second_run :: "outcome \<times> nat \<times> fs" where
  "second_run = Convert go_lib ''2025-09-22T10:00:01Z'' [''home''] upper_config (snd first_run)"

text \<open>A label file whose only line has NaN coordinates.\<close>

definition nan_fs :: fs where
  "nan_fs = [([''labels'', ''a.txt''], File (''0 NaN NaN NaN NaN'' @ [LF]))]"

text \<open>
  The records of \<^verbatim>\<open>BenchmarkSplitDataset\<close>, which are all the same record, and a
  configuration with the train fraction 0.7.
\<close>

definition bench_pair :: LabelPair where
  "bench_pair = \<lparr>ImagePath = [''image.jpg''], LabelPath = [''label.txt'']\<rparr>"

definition bench_config :: Config where
  "bench_config = \<lparr>SourceDir = [], OutputDir = [], TrainSplit = round64 (7 / 10), Seed = 42\<rparr>"

text \<open>An export whose image has an upper-case extension and whose label is named after the stem.\<close>

definition photo_fs :: fs where
  "photo_fs =
     [([''images''], Dir),
      ([''labels''], Dir),
      ([''images'', ''photo.JPG''], File ''fake image data''),
      ([''labels'', ''photo.txt''], File []),
      ([''classes.txt''], File (''book'' @ [LF]))]"

section \<open>Properties\<close>

subsection \<open>Rounding to the nearest double\<close>

lemma rhe_nonneg: "0 \<le> y \<Longrightarrow> 0 \<le> round_half_even y"
  by (auto simp: round_half_even_def Let_def)

lemma rhe_le_int:
  assumes "y \<le> of_int N"
  shows "round_half_even y \<le> N"
proof -
  have fl: "\<lfloor>y\<rfloor> \<le> N" using assms by (simp add: floor_le_iff)
  show ?thesis
  proof (cases "y = of_int \<lfloor>y\<rfloor>")
    case True
    then have "y - of_int \<lfloor>y\<rfloor> = 0" by simp
    then show ?thesis using fl by (simp add: round_half_even_def Let_def)
  next
    case False
    then have "of_int \<lfloor>y\<rfloor> \<noteq> y" by (rule not_sym)
    moreover have "of_int \<lfloor>y\<rfloor> \<le> y" by (rule of_int_floor_le)
    ultimately have "of_int \<lfloor>y\<rfloor> < y" by (rule order.not_eq_order_implies_strict)
    then have "of_int \<lfloor>y\<rfloor> < (of_int N :: rat)" using assms by linarith
    then have "\<lfloor>y\<rfloor> < N" by simp
    then show ?thesis by (auto simp: round_half_even_def Let_def)
  qed
qed

lemma rhe_of_int: "round_half_even (of_int N) = N"
  by (simp add: round_half_even_def Let_def)

lemma rhe_near:
  assumes "\<bar>y - of_int m\<bar> < 1 / 2"
  shows "round_half_even y = m"
proof (cases "of_int m \<le> y")
  case True
  have "\<lfloor>y\<rfloor> = m" using True assms by (intro floor_unique) (simp_all add: abs_less_iff)
  then show ?thesis using True assms by (simp add: round_half_even_def Let_def abs_less_iff)
next
  case False
  have "\<lfloor>y\<rfloor> = m - 1" using False assms by (intro floor_unique) (simp_all add: abs_less_iff)
  then show ?thesis using False assms by (simp add: round_half_even_def Let_def abs_less_iff)
qed

lemma rhe_tie:
  assumes "y = of_int m + 1 / 2"
  shows "round_half_even y = (if even m then m else m + 1)"
proof -
  have "\<lfloor>y\<rfloor> = m" using assms by (intro floor_unique) simp_all
  then show ?thesis using assms by (simp add: round_half_even_def Let_def)
qed

lemma rat_of_nat_less_pow53:
  assumes "n < 2 ^ 53"
  shows "(of_nat n :: rat) < 2 ^ 53"
proof -
  have "(of_nat n :: rat) < of_nat (2 ^ 53)" using assms by (simp only: of_nat_less_iff)
  then show ?thesis by simp
qed

lemma pow2_ulp_exp_small:
  assumes "a < 2 ^ 53"
  shows "pow2 (ulp_exp a) = 1 / 2 ^ scale_up 1074 a"
proof -
  have ue: "ulp_exp a = - int (scale_up 1074 a)" using assms by (simp add: ulp_exp_def)
  show ?thesis by (cases "scale_up 1074 a = 0") (simp_all add: ue pow2_def)
qed

lemma round64_bound:
  assumes "0 \<le> x" "x \<le> of_nat n" "n < 2 ^ 53"
  shows "\<exists>r. round64 x = Finite r \<and> 0 \<le> r \<and> r \<le> of_nat n"
proof (cases "x = 0")
  case True
  then show ?thesis by (simp add: round64_def)
next
  case False
  with assms have pos: "0 < x" by simp
  have lt: "x < 2 ^ 53" using rat_of_nat_less_pow53[OF assms(3)] assms(2) by simp
  define k where "k = scale_up 1074 x"
  have q: "pow2 (ulp_exp x) = 1 / 2 ^ k" unfolding k_def using lt by (rule pow2_ulp_exp_small)
  define m where "m = round_half_even (x * 2 ^ k)"
  have "x * 2 ^ k \<le> of_int (int n * 2 ^ k)" using assms(2) by simp
  then have m_le: "m \<le> int n * 2 ^ k" unfolding m_def by (rule rhe_le_int)
  have m_ge: "0 \<le> m" unfolding m_def using pos by (intro rhe_nonneg) simp
  define r where "r = (of_int m :: rat) / 2 ^ k"
  have r_ge: "0 \<le> r" using m_ge by (simp add: r_def)
  have "(of_int m :: rat) \<le> of_int (int n * 2 ^ k)" using m_le by (simp only: of_int_le_iff)
  then have r_le: "r \<le> of_nat n" by (simp add: r_def divide_le_eq)
  have "r < 2 ^ 53" using r_le rat_of_nat_less_pow53[OF assms(3)] by simp
  also have "(2::rat) ^ 53 \<le> 2 ^ 1024" by (rule power_increasing) simp_all
  finally have nover: "\<not> 2 ^ 1024 \<le> r" by simp
  have "round64 x = Finite r"
    using pos nover by (simp add: round64_def Let_def q r_def m_def)
  then show ?thesis using r_ge r_le by blast
qed

lemma round64_of_nat:
  assumes "n < 2 ^ 53"
  shows "round64 (of_nat n) = Finite (of_nat n)"
proof (cases "n = 0")
  case True
  then show ?thesis by (simp add: round64_def)
next
  case False
  then have pos: "0 < (of_nat n :: rat)" by simp
  have lt: "(of_nat n :: rat) < 2 ^ 53" using assms by (rule rat_of_nat_less_pow53)
  define k where "k = scale_up 1074 (of_nat n)"
  have q: "pow2 (ulp_exp (of_nat n)) = 1 / 2 ^ k" unfolding k_def using lt by (rule pow2_ulp_exp_small)
  have "(of_nat n :: rat) * 2 ^ k = of_int (int n * 2 ^ k)" by simp
  then have m: "round_half_even (of_nat n * 2 ^ k) = int n * 2 ^ k"
    by (simp only: rhe_of_int)
  have nover: "\<not> 2 ^ 1024 \<le> (of_nat n :: rat)"
  proof -
    have "(2::rat) ^ 53 \<le> 2 ^ 1024" by (rule power_increasing) simp_all
    then show ?thesis using lt by simp
  qed
  show ?thesis using pos nover False
    by (simp add: round64_def Let_def q m)
qed

lemma scale_up_numeral:
  "scale_up (numeral k) a = (if 2 ^ 52 \<le> a then 0 else Suc (scale_up (pred_numeral k) (2 * a)))"
  by (simp add: numeral_eq_Suc)

lemma round64_small:
  assumes "x \<noteq> 0" "\<bar>x\<bar> < 2 ^ 53"
    and k: "scale_up 1074 \<bar>x\<bar> = k"
    and m: "round_half_even (\<bar>x\<bar> * 2 ^ k) = m"
  shows "round64 x = Finite ((if 0 < x then 1 else - 1) * of_int m / 2 ^ k)"
proof -
  have q: "pow2 (ulp_exp \<bar>x\<bar>) = 1 / 2 ^ k"
    using pow2_ulp_exp_small[OF assms(2)] k by simp
  have "\<bar>x\<bar> * 2 ^ k \<le> of_int (2 ^ 53 * 2 ^ k)" using assms(2) by simp
  then have "m \<le> 2 ^ 53 * 2 ^ k" unfolding m[symmetric] by (rule rhe_le_int)
  then have "(of_int m :: rat) \<le> of_int (2 ^ 53 * 2 ^ k)" by (simp only: of_int_le_iff)
  then have "(of_int m :: rat) / 2 ^ k \<le> 2 ^ 53" by (simp add: divide_le_eq)
  also have "(2::rat) ^ 53 < 2 ^ 1024" by (rule power_strict_increasing) simp_all
  finally have nover: "\<not> 2 ^ 1024 \<le> (of_int m :: rat) / 2 ^ k" by simp
  have r: "of_int (round_half_even (\<bar>x\<bar> / pow2 (ulp_exp \<bar>x\<bar>))) * pow2 (ulp_exp \<bar>x\<bar>)
             = of_int m / 2 ^ k"
    by (simp add: q m)
  show ?thesis unfolding round64_def Let_def r using assms(1) nover by simp
qed

lemma rhe_ge_int:
  assumes "of_int N \<le> y"
  shows "N \<le> round_half_even y"
proof -
  have "N \<le> \<lfloor>y\<rfloor>" using assms by (simp add: le_floor_iff)
  then show ?thesis by (auto simp: round_half_even_def Let_def)
qed

lemma scale_down_lower: "2 ^ 53 \<le> a \<Longrightarrow> 2 ^ 52 \<le> a / 2 ^ scale_down a \<and> 0 < scale_down a"
proof (induction a rule: scale_down.induct)
  case (1 a)
  show ?case
  proof (cases "a / 2 < 2 ^ 53")
    case True
    then have "scale_down (a / 2) = 0" by (subst scale_down.simps) simp
    then have "scale_down a = Suc 0" using "1.prems" by (subst scale_down.simps) simp
    then show ?thesis using "1.prems" by simp
  next
    case False
    then have "2 ^ 53 \<le> a / 2" by simp
    moreover have "\<not> a < 2 ^ 53" using "1.prems" by simp
    ultimately have ih: "2 ^ 52 \<le> a / 2 / 2 ^ scale_down (a / 2)" using "1.IH" by blast
    have "scale_down a = Suc (scale_down (a / 2))" using "1.prems" by (subst scale_down.simps) simp
    then show ?thesis using ih by (simp add: field_simps)
  qed
qed

lemma round64_lower:
  assumes "of_nat N \<le> x" "0 < N" "N \<le> 2 ^ 53"
  shows "round64 x = PosInf \<or> (\<exists>r. round64 x = Finite r \<and> of_nat N \<le> r)"
proof -
  have pos: "0 < x" using assms(1,2) by (metis of_nat_0_less_iff less_le_trans)
  then have ne: "x \<noteq> 0" and ab: "\<bar>x\<bar> = x" by simp_all
  define q where "q = pow2 (ulp_exp x)"
  define r where "r = of_int (round_half_even (x / q)) * q"
  have r64: "round64 x = (if 2 ^ 1024 \<le> r then PosInf else Finite r)"
    using pos ne by (simp add: round64_def Let_def ab q_def r_def)
  have "of_nat N \<le> r"
  proof (cases "x < 2 ^ 53")
    case True
    define k where "k = scale_up 1074 x"
    have q: "q = 1 / 2 ^ k" unfolding q_def k_def using True by (rule pow2_ulp_exp_small)
    have "of_int (int N * 2 ^ k) \<le> x * 2 ^ k" using assms(1) by simp
    then have "int N * 2 ^ k \<le> round_half_even (x * 2 ^ k)" by (rule rhe_ge_int)
    then have "(of_int (int N * 2 ^ k) :: rat) \<le> of_int (round_half_even (x * 2 ^ k))"
      by (simp only: of_int_le_iff)
    then show ?thesis by (simp add: r_def q le_divide_eq)
  next
    case False
    then have big: "2 ^ 53 \<le> x" by simp
    define t where "t = scale_down x"
    have ue: "ulp_exp x = int t" using False by (simp add: ulp_exp_def t_def)
    have q: "q = 2 ^ t" by (simp add: q_def ue pow2_def)
    have lo: "2 ^ 52 \<le> x / 2 ^ t" and tpos: "0 < t"
      using scale_down_lower[OF big] by (simp_all add: t_def)
    have "of_int (2 ^ 52) \<le> x / 2 ^ t" using lo by simp
    then have "2 ^ 52 \<le> round_half_even (x / 2 ^ t)" by (rule rhe_ge_int)
    then have "(of_int (2 ^ 52) :: rat) \<le> of_int (round_half_even (x / 2 ^ t))"
      by (simp only: of_int_le_iff)
    then have m: "(2 ^ 52 :: rat) \<le> of_int (round_half_even (x / 2 ^ t))" by simp
    have "(2::rat) ^ 1 \<le> 2 ^ t" using tpos by (intro power_increasing) simp_all
    then have "(2::rat) \<le> 2 ^ t" by simp
    with m have "(2 ^ 52 :: rat) * 2 \<le> of_int (round_half_even (x / 2 ^ t)) * 2 ^ t"
      by (intro mult_mono) simp_all
    then have "(2 ^ 53 :: rat) \<le> r" by (simp add: r_def q)
    moreover have "(of_nat N :: rat) \<le> of_nat (2 ^ 53)" using assms(3) by (simp only: of_nat_le_iff)
    ultimately show ?thesis by simp
  qed
  then show ?thesis using r64 by auto
qed

lemma round64_minus: "round64 (- x) = f64_neg (round64 x)"
  by (simp add: round64_def Let_def)

lemma round64_upper_neg:
  assumes "x \<le> - of_nat N" "0 < N" "N \<le> 2 ^ 53"
  shows "round64 x = NegInf \<or> (\<exists>r. round64 x = Finite r \<and> r \<le> - of_nat N)"
proof -
  have "of_nat N \<le> - x" using assms(1) by simp
  from round64_lower[OF this assms(2,3)]
  have "round64 (- x) = PosInf \<or> (\<exists>r. round64 (- x) = Finite r \<and> of_nat N \<le> r)" .
  then show ?thesis
    by (cases "round64 x") (auto simp: round64_minus)
qed
text \<open>
  Rounding does not cross an integer: the rounded value of \<open>x\<close> lies between the
  integers below and above \<open>x\<close>.
\<close>

lemma round64_floor_bounds:
  assumes x: "0 \<le> x" "x \<le> of_nat n" and n: "n < 2 ^ 53" and r: "round64 x = Finite r"
  shows "\<lfloor>x\<rfloor> \<le> \<lfloor>r\<rfloor> \<and> \<lfloor>r\<rfloor> \<le> \<lceil>x\<rceil>"
proof
  define a where "a = nat \<lfloor>x\<rfloor>"
  have fx: "0 \<le> \<lfloor>x\<rfloor>" using x(1) by simp
  have "(of_nat a :: rat) = of_int \<lfloor>x\<rfloor>" using fx by (simp add: a_def)
  also have "\<dots> \<le> x" by (rule of_int_floor_le)
  finally have a: "of_nat a \<le> x" .
  show "\<lfloor>x\<rfloor> \<le> \<lfloor>r\<rfloor>"
  proof (cases "a = 0")
    case True
    then have "\<lfloor>x\<rfloor> \<le> 0" unfolding a_def by (simp only: nat_0_iff)
    moreover have "0 \<le> r" using round64_bound[OF x n] r by auto
    then have "0 \<le> \<lfloor>r\<rfloor>" by (simp only: zero_le_floor)
    ultimately show ?thesis by (rule order_trans)
  next
    case False
    have "\<lfloor>x\<rfloor> \<le> int n" using x(2) by (simp add: floor_le_iff)
    then have "a \<le> 2 ^ 53" using n by (simp add: a_def)
    from round64_lower[OF a _ this] False r have "of_nat a \<le> r" by auto
    then have "int a \<le> \<lfloor>r\<rfloor>" by (simp add: le_floor_iff)
    then show ?thesis using fx by (simp add: a_def)
  qed
next
  define b where "b = nat \<lceil>x\<rceil>"
  have cx: "0 \<le> \<lceil>x\<rceil>" using x(1) by (simp add: order_trans[OF _ le_of_int_ceiling])
  have "x \<le> of_int \<lceil>x\<rceil>" by (rule le_of_int_ceiling)
  also have "of_int \<lceil>x\<rceil> = (of_nat b :: rat)" using cx by (simp add: b_def)
  finally have b: "x \<le> of_nat b" .
  have "\<lceil>x\<rceil> \<le> int n" using x(2) by (simp add: ceiling_le_iff)
  then have "b < 2 ^ 53" using n by (simp add: b_def)
  from round64_bound[OF x(1) b this] r have "r \<le> of_nat b" by auto
  then have "\<lfloor>r\<rfloor> \<le> int b" by (simp add: floor_le_iff)
  then show "\<lfloor>r\<rfloor> \<le> \<lceil>x\<rceil>" using cx by (simp add: b_def)
qed

subsection \<open>The shuffle\<close>

lemma swap_elems_mset: "swap_elems i j xs = Inr ys \<Longrightarrow> mset ys = mset xs"
  by (auto simp: swap_elems_def mset_swap split: if_splits)

lemma Shuffle_loop_perm:
  assumes contract: "\<forall>g b. 0 < b \<longrightarrow> fst (intn g b) < b"
  shows "i < length xs \<or> i = 0 \<Longrightarrow>
    \<exists>ys g'. Shuffle_loop intn swap_elems i g xs = Inr (ys, g') \<and> mset ys = mset xs"
proof (induction i arbitrary: g xs)
  case 0
  then show ?case by simp
next
  case (Suc i)
  obtain j g1 where draw: "intn g (Suc i + 1) = (j, g1)" by (cases "intn g (Suc i + 1)")
  have "fst (intn g (Suc i + 1)) < Suc i + 1" using contract by simp
  then have j: "j < length xs" using draw Suc.prems by simp
  have i: "Suc i < length xs" using Suc.prems by simp
  define zs where "zs = xs[Suc i := xs ! j, j := xs ! Suc i]"
  have sw: "swap_elems (Suc i) j xs = Inr zs" using i j by (simp add: swap_elems_def zs_def)
  have len: "length zs = length xs" by (simp add: zs_def)
  have ms: "mset zs = mset xs" using sw by (rule swap_elems_mset)
  have "i < length zs \<or> i = 0" using i len by simp
  from Suc.IH[OF this, of g1] obtain ys g' where
    "Shuffle_loop intn swap_elems i g1 zs = Inr (ys, g')" "mset ys = mset zs" by blast
  then show ?case using draw sw ms by simp
qed

lemma Shuffle_perm:
  assumes "\<forall>g b. 0 < b \<longrightarrow> fst (intn g b) < b"
  shows "\<exists>ys g'. Shuffle intn (length xs) swap_elems g xs = Inr (ys, g') \<and> mset ys = mset xs"
  unfolding Shuffle_def
  by (rule Shuffle_loop_perm[OF assms]) (cases xs; simp)

subsection \<open>The train count\<close>

lemma trainCount_unit:
  assumes f: "TrainSplit c = Finite f" "0 \<le> f" "f \<le> 1" and n: "n < 2 ^ 53"
  shows "\<exists>r. f64_mul (float64_of_int (int n)) (TrainSplit c) = Finite r \<and> 0 \<le> r \<and> r \<le> of_nat n
           \<and> trainCount c n = Some \<lfloor>r\<rfloor> \<and> (f = 0 \<longrightarrow> r = 0) \<and> (f = 1 \<longrightarrow> r = of_nat n)"
proof -
  have conv: "float64_of_int (int n) = Finite (of_nat n)"
    using round64_of_nat[OF n] by (simp add: float64_of_int_def)
  have "0 \<le> of_nat n * f" using f(2) by simp
  moreover have "of_nat n * f \<le> of_nat n" using f(3) by (simp add: mult_left_le)
  ultimately obtain r where r: "round64 (of_nat n * f) = Finite r" "0 \<le> r" "r \<le> of_nat n"
    using round64_bound[OF _ _ n] by blast
  have prod: "f64_mul (float64_of_int (int n)) (TrainSplit c) = Finite r"
    by (simp add: conv f(1) r(1))
  have "r < 2 ^ 53" using r(3) rat_of_nat_less_pow53[OF n] by simp
  then have "int_of_float64 (Finite r) = Some \<lfloor>r\<rfloor>"
    using r(2) by (simp add: trunc_def Let_def floor_less_iff)
  then have tc: "trainCount c n = Some \<lfloor>r\<rfloor>" by (simp add: trainCount_def prod)
  have z: "f = 0 \<longrightarrow> r = 0" using r(1) by (auto simp: round64_def)
  have o: "f = 1 \<longrightarrow> r = of_nat n" using r(1) round64_of_nat[OF n] by auto
  show ?thesis using prod r(2,3) tc z o by blast
qed

text \<open>The configuration of the repository's tests: three records and the double nearest 0.8.\<close>

lemma round64_four_fifths: "round64 (4 / 5) = Finite (7205759403792794 / 2 ^ 53)"
proof -
  have k: "scale_up 1074 \<bar>4 / 5 :: rat\<bar> = 53" by (simp add: scale_up_numeral)
  have m: "round_half_even (\<bar>4 / 5\<bar> * 2 ^ 53) = 7205759403792794"
    by (rule rhe_near) simp
  show ?thesis using round64_small[OF _ _ k m] by simp
qed

lemma round64_three_times:
  "round64 (3 * (7205759403792794 / 2 ^ 53)) = Finite (5404319552844596 / 2 ^ 51)"
proof -
  have k: "scale_up 1074 \<bar>3 * (7205759403792794 / 2 ^ 53) :: rat\<bar> = 51"
    by (simp add: scale_up_numeral)
  have "round_half_even (\<bar>3 * (7205759403792794 / 2 ^ 53)\<bar> * 2 ^ 51)
          = (if even (5404319552844595::int) then 5404319552844595 else 5404319552844595 + 1)"
    by (rule rhe_tie) simp
  then have m: "round_half_even (\<bar>3 * (7205759403792794 / 2 ^ 53)\<bar> * 2 ^ 51) = 5404319552844596"
    by simp
  show ?thesis using round64_small[OF _ _ k m] by simp
qed

lemma f64_mul_test:
  "f64_mul (float64_of_int 3) (round64 (4 / 5)) = Finite (5404319552844596 / 2 ^ 51)"
proof -
  have "float64_of_int 3 = Finite 3"
    using round64_of_nat[of 3] by (simp add: float64_of_int_def)
  then show ?thesis
    using round64_three_times by (simp add: round64_four_fifths)
qed


subsection \<open>The split is a partition\<close>

lemma lcg_contract: "\<forall>g b. 0 < b \<longrightarrow> fst (rand_intn go_lib g b) < b"
  by (simp add: go_lib_def lcg_intn_def)

text \<open>
  The shuffle cannot fail when the draws stay below their bound, so the result of
  \<^verbatim>\<open>SplitDataset\<close> is decided by the train count alone.
\<close>

lemma SplitDataset_by_trainCount:
  assumes contract: "\<forall>g b. 0 < b \<longrightarrow> fst (rand_intn L g b) < b"
  shows "\<exists>ys g'. mset ys = mset pairs \<and>
           SplitDataset L c g0 pairs =
             (case trainCount c (length pairs) of
                None \<Rightarrow> Inl ConversionUndefined
              | Some k \<Rightarrow>
                  if 0 \<le> k \<and> k \<le> int (length pairs)
                  then Inr ((take (nat k) ys, drop (nat k) ys), g')
                  else Inl SliceBoundsOutOfRange)"
proof -
  obtain ys g' where
    sh: "Shuffle (rand_intn L) (length pairs) swap_elems (rand_Seed L (Seed c)) pairs = Inr (ys, g')"
    and ms: "mset ys = mset pairs"
    using Shuffle_perm[OF contract] by blast
  have len: "length ys = length pairs" using ms by (rule mset_eq_length)
  have "SplitDataset L c g0 pairs =
             (case trainCount c (length pairs) of
                None \<Rightarrow> Inl ConversionUndefined
              | Some k \<Rightarrow>
                  if 0 \<le> k \<and> k \<le> int (length pairs)
                  then Inr ((take (nat k) ys, drop (nat k) ys), g')
                  else Inl SliceBoundsOutOfRange)"
    using sh len by (simp add: SplitDataset_def Let_def split: option.splits)
  then show ?thesis using ms by blast
qed

text \<open>Ten records and the double nearest 0.7: the product rounds up to 7.\<close>

lemma round64_seven_tenths: "round64 (7 / 10) = Finite (6305039478318694 / 2 ^ 53)"
proof -
  have k: "scale_up 1074 \<bar>7 / 10 :: rat\<bar> = 53" by (simp add: scale_up_numeral)
  have m: "round_half_even (\<bar>7 / 10\<bar> * 2 ^ 53) = 6305039478318694"
    by (rule rhe_near) simp
  show ?thesis using round64_small[OF _ _ k m] by simp
qed

lemma round64_ten_times: "round64 (10 * (6305039478318694 / 2 ^ 53)) = Finite 7"
proof -
  have k: "scale_up 1074 \<bar>10 * (6305039478318694 / 2 ^ 53) :: rat\<bar> = 50"
    by (simp add: scale_up_numeral)
  have "round_half_even (\<bar>10 * (6305039478318694 / 2 ^ 53)\<bar> * 2 ^ 50)
          = (if even (7881299347898367::int) then 7881299347898367 else 7881299347898367 + 1)"
    by (rule rhe_tie) simp
  then have m: "round_half_even (\<bar>10 * (6305039478318694 / 2 ^ 53)\<bar> * 2 ^ 50) = 7881299347898368"
    by simp
  show ?thesis using round64_small[OF _ _ k m] by simp
qed

lemma trainCount_bench: "trainCount bench_config 10 = Some 7"
proof -
  have "float64_of_int 10 = Finite 10"
    using round64_of_nat[of 10] by (simp add: float64_of_int_def)
  then have "f64_mul (float64_of_int 10) (round64 (7 / 10)) = Finite 7"
    using round64_ten_times by (simp add: round64_seven_tenths)
  moreover have "trunc 7 = 7" by (simp add: trunc_def)
  ultimately show ?thesis by (simp add: trainCount_def bench_config_def Let_def)
qed

lemma mset_replicate_eq: "mset ys = mset (replicate n p) \<Longrightarrow> ys = replicate n p"
proof -
  assume ms: "mset ys = mset (replicate n p)"
  then have len: "length ys = n" by (metis mset_eq_length length_replicate)
  have "set ys = set (replicate n p)" using ms by (rule mset_eq_setD)
  then have "\<forall>y \<in> set ys. y = p" by auto
  then have "replicate (length ys) p = ys" by (rule replicate_length_same)
  then show ?thesis using len by simp
qed

text \<open>
  C1, as the claim states it, fails in two places. The train size is the floor of the
  \<^verbatim>\<open>float64\<close> product \<^verbatim>\<open>float64(len) * TrainSplit\<close>, and the product is rounded: with
  ten records and the train fraction 0.7 (the double \<open>6305039478318694 / 2 ^ 53\<close>,
  just below 0.7) the exact product is just below 7 and its floor is 6, but the
  rounded product is 7 and the train subset has seven records. And the two subsets
  are not disjoint as sets when the list holds a record twice: for the ten equal
  records of the benchmark both subsets hold that record.
\<close>

theorem SplitDataset_size_counterexample:
  "\<not> isl (SplitDataset go_lib bench_config 0 (replicate 10 bench_pair))
   \<and> fst (projr (SplitDataset go_lib bench_config 0 (replicate 10 bench_pair)))
       = (replicate 7 bench_pair, replicate 3 bench_pair)
   \<and> TrainSplit bench_config = Finite (6305039478318694 / 2 ^ 53)
   \<and> \<lfloor>rat_of_nat (length (replicate 10 bench_pair)) * (6305039478318694 / 2 ^ 53)\<rfloor> = 6
   \<and> set (replicate 7 bench_pair) \<inter> set (replicate 3 bench_pair) = {bench_pair}"
proof -
  obtain ys g' where ms: "mset ys = mset (replicate 10 bench_pair)"
    and res: "SplitDataset go_lib bench_config 0 (replicate 10 bench_pair) =
             (case trainCount bench_config (length (replicate 10 bench_pair)) of
                None \<Rightarrow> Inl ConversionUndefined
              | Some k \<Rightarrow>
                  if 0 \<le> k \<and> k \<le> int (length (replicate 10 bench_pair))
                  then Inr ((take (nat k) ys, drop (nat k) ys), g')
                  else Inl SliceBoundsOutOfRange)"
    using SplitDataset_by_trainCount[OF lcg_contract] by blast
  have ys: "ys = replicate 10 bench_pair" using ms by (rule mset_replicate_eq)
  have r: "SplitDataset go_lib bench_config 0 (replicate 10 bench_pair)
             = Inr ((replicate 7 bench_pair, replicate 3 bench_pair), g')"
    unfolding res by (simp add: trainCount_bench ys)
  have f: "TrainSplit bench_config = Finite (6305039478318694 / 2 ^ 53)"
    by (simp add: bench_config_def round64_seven_tenths)
  have fl: "\<lfloor>rat_of_nat (length (replicate 10 bench_pair)) * (6305039478318694 / 2 ^ 53)\<rfloor> = 6"
    by (rule floor_unique) simp_all
  have s: "set (replicate 7 bench_pair) \<inter> set (replicate 3 bench_pair) = {bench_pair}" by simp
  show ?thesis using f fl s by (simp add: r)
qed

text \<open>
  C1, amended. For every record list, every train fraction \<open>f\<close> in \<open>[0, 1]\<close> and
  every seed, \<^verbatim>\<open>SplitDataset\<close> returns a train subset whose size is the floor of the
  \<^verbatim>\<open>float64\<close> product of \<open>|R|\<close> and \<open>f\<close>; this size is never below
  \<open>floor(|R| * f)\<close> and never above \<open>ceiling(|R| * f)\<close>, so it is
  \<open>floor(|R| * f)\<close> or, when the product rounds up to the next integer, one more.
  The validation subset has the remaining records; the multiset union of the two is
  the input, so no record is duplicated or dropped, and the two are disjoint when
  the records are distinct; \<open>f = 0\<close> gives an empty train set and \<open>f = 1\<close> an
  empty validation set. The random source is any source whose draws below \<open>n\<close> are
  below \<open>n\<close>, and the list is shorter than \<open>2 ^ 53\<close>, as every list that fits in
  memory is.
\<close>

theorem SplitDataset_partition:
  assumes contract: "\<forall>g b. 0 < b \<longrightarrow> fst (rand_intn L g b) < b"
    and frac: "TrainSplit c = Finite f" "0 \<le> f" "f \<le> 1"
    and size: "length pairs < 2 ^ 53"
  shows "\<exists>train val g' r.
           SplitDataset L c g0 pairs = Inr ((train, val), g')
         \<and> f64_mul (float64_of_int (int (length pairs))) (TrainSplit c) = Finite r
         \<and> int (length train) = \<lfloor>r\<rfloor>
         \<and> \<lfloor>of_nat (length pairs) * f\<rfloor> \<le> int (length train)
         \<and> int (length train) \<le> \<lceil>of_nat (length pairs) * f\<rceil>
         \<and> length val = length pairs - length train
         \<and> mset train + mset val = mset pairs
         \<and> (distinct pairs \<longrightarrow> set train \<inter> set val = {})
         \<and> (f = 0 \<longrightarrow> train = [])
         \<and> (f = 1 \<longrightarrow> val = [])"
proof -
  obtain ys g' where
    sh: "Shuffle (rand_intn L) (length pairs) swap_elems (rand_Seed L (Seed c)) pairs = Inr (ys, g')"
    and ms: "mset ys = mset pairs"
    using Shuffle_perm[OF contract] by blast
  have len: "length ys = length pairs" using ms by (rule mset_eq_length)
  obtain r where r: "f64_mul (float64_of_int (int (length pairs))) (TrainSplit c) = Finite r"
    "0 \<le> r" "r \<le> of_nat (length pairs)" "trainCount c (length pairs) = Some \<lfloor>r\<rfloor>"
    "f = 0 \<longrightarrow> r = 0" "f = 1 \<longrightarrow> r = of_nat (length pairs)"
    using trainCount_unit[OF frac size] by blast
  have conv: "float64_of_int (int (length pairs)) = Finite (of_nat (length pairs))"
    using round64_of_nat[OF size] by (simp add: float64_of_int_def)
  have rr: "round64 (of_nat (length pairs) * f) = Finite r"
    using r(1) by (simp add: conv frac(1))
  have x0: "0 \<le> of_nat (length pairs) * f" using frac(2) by simp
  have x1: "of_nat (length pairs) * f \<le> of_nat (length pairs)"
    using frac(3) by (simp add: mult_left_le)
  have bounds: "\<lfloor>of_nat (length pairs) * f\<rfloor> \<le> \<lfloor>r\<rfloor>" "\<lfloor>r\<rfloor> \<le> \<lceil>of_nat (length pairs) * f\<rceil>"
    using round64_floor_bounds[OF x0 x1 size rr] by simp_all
  define k where "k = nat \<lfloor>r\<rfloor>"
  have k0: "0 \<le> \<lfloor>r\<rfloor>" using r(2) by simp
  have kn: "\<lfloor>r\<rfloor> \<le> int (length pairs)" using r(3) by (simp add: floor_le_iff)
  have kle: "k \<le> length pairs" using kn k0 by (simp add: k_def)
  have res: "SplitDataset L c g0 pairs = Inr ((take k ys, drop k ys), g')"
    using sh r(4) k0 kn by (simp add: SplitDataset_def Let_def len k_def)
  have 1: "int (length (take k ys)) = \<lfloor>r\<rfloor>" using kle k0 by (simp add: len k_def)
  have 2: "length (drop k ys) = length pairs - length (take k ys)" using kle by (simp add: len)
  have "mset (take k ys) + mset (drop k ys) = mset (take k ys @ drop k ys)"
    by (simp only: mset_append)
  also have "\<dots> = mset ys" by (simp only: append_take_drop_id)
  finally have 3: "mset (take k ys) + mset (drop k ys) = mset pairs" by (simp only: ms)
  have 4: "distinct pairs \<longrightarrow> set (take k ys) \<inter> set (drop k ys) = {}"
  proof
    assume "distinct pairs"
    then have "distinct ys" using ms by (metis mset_eq_imp_distinct_iff)
    then have "distinct (take k ys @ drop k ys)" by simp
    then show "set (take k ys) \<inter> set (drop k ys) = {}" by (simp only: distinct_append)
  qed
  have 5: "f = 0 \<longrightarrow> take k ys = []" using r(5) by (auto simp: k_def)
  have 6: "f = 1 \<longrightarrow> drop k ys = []" using r(6) by (auto simp: k_def len)
  have b1: "\<lfloor>of_nat (length pairs) * f\<rfloor> \<le> int (length (take k ys))" using bounds(1) 1 by simp
  have b2: "int (length (take k ys)) \<le> \<lceil>of_nat (length pairs) * f\<rceil>" using bounds(2) 1 by simp
  show ?thesis using res r(1) 1 b1 b2 2 3 4 5 6 by blast
qed

theorem SplitDataset_partition_witness:
  "\<exists>train val g'.
      SplitDataset go_lib test_config 0 test_pairs = Inr ((train, val), g')
    \<and> TrainSplit test_config = Finite (7205759403792794 / 2 ^ 53)
    \<and> \<lfloor>rat_of_nat (length test_pairs) * (7205759403792794 / 2 ^ 53)\<rfloor> = 2
    \<and> length train = 2 \<and> length val = 1
    \<and> mset train + mset val = mset test_pairs
    \<and> set train \<inter> set val = {}"
proof -
  have frac: "TrainSplit test_config = Finite (7205759403792794 / 2 ^ 53)"
    by (simp add: test_config_def round64_four_fifths)
  have size: "length test_pairs < 2 ^ 53" by (simp add: test_pairs_def)
  have dist: "distinct test_pairs" by (simp add: test_pairs_def)
  have prod: "f64_mul (float64_of_int (int (length test_pairs))) (TrainSplit test_config)
                = Finite (5404319552844596 / 2 ^ 51)"
    using f64_mul_test by (simp add: test_pairs_def test_config_def)
  have fl: "\<lfloor>5404319552844596 / 2 ^ 51 :: rat\<rfloor> = 2" by (rule floor_unique) simp_all
  have fx: "\<lfloor>rat_of_nat (length test_pairs) * (7205759403792794 / 2 ^ 53)\<rfloor> = 2"
    by (rule floor_unique) (simp_all add: test_pairs_def)
  from SplitDataset_partition[OF lcg_contract frac _ _ size, of 0]
  obtain train val g' r where
    res: "SplitDataset go_lib test_config 0 test_pairs = Inr ((train, val), g')"
    and r: "f64_mul (float64_of_int (int (length test_pairs))) (TrainSplit test_config) = Finite r"
    and sz: "int (length train) = \<lfloor>r\<rfloor>" "length val = length test_pairs - length train"
    and ms: "mset train + mset val = mset test_pairs"
    and dj: "distinct test_pairs \<longrightarrow> set train \<inter> set val = {}"
    by auto
  have "Finite r = Finite (5404319552844596 / 2 ^ 51)" using r prod by (simp only:)
  then have "r = 5404319552844596 / 2 ^ 51" by (simp only: float64.inject)
  then have "\<lfloor>r\<rfloor> = 2" using fl by (simp only:)
  then have "int (length train) = 2" using sz(1) by (simp only:)
  then have "length train = 2" by simp
  moreover from this have "length val = 1" using sz(2) by (simp add: test_pairs_def)
  ultimately show ?thesis using res frac fx ms dj dist by blast
qed


subsection \<open>The split does not depend on the state of the random source\<close>

text \<open>
  \<^verbatim>\<open>SplitDataset\<close> seeds the default source before it draws, so the state \<open>g0\<close>
  in which a call finds the source does not matter.
\<close>

lemma SplitDataset_seeded: "SplitDataset L c g0 pairs = SplitDataset L c g1 pairs"
  by (simp add: SplitDataset_def)

subsection \<open>The fraction is not validated\<close>

lemma trainCount_outside:
  assumes f: "TrainSplit c = Finite f" and n: "n < 2 ^ 53"
    and out: "of_nat n * f \<le> - 1 \<or> of_nat n + 1 \<le> of_nat n * f"
  shows "\<forall>k. trainCount c n = Some k \<longrightarrow> k < 0 \<or> int n < k"
proof -
  have conv: "float64_of_int (int n) = Finite (of_nat n)"
    using round64_of_nat[OF n] by (simp add: float64_of_int_def)
  have prod: "f64_mul (float64_of_int (int n)) (TrainSplit c) = round64 (of_nat n * f)"
    by (simp add: conv f)
  from out show ?thesis
  proof
    assume "of_nat n * f \<le> - 1"
    then have "of_nat n * f \<le> - of_nat (Suc 0)" by simp
    from round64_upper_neg[OF this]
    have "round64 (of_nat n * f) = NegInf \<or> (\<exists>r. round64 (of_nat n * f) = Finite r \<and> r \<le> - 1)"
      by simp
    then show ?thesis
    proof
      assume "round64 (of_nat n * f) = NegInf"
      then show ?thesis by (simp add: trainCount_def prod)
    next
      assume "\<exists>r. round64 (of_nat n * f) = Finite r \<and> r \<le> - 1"
      then obtain r where r: "round64 (of_nat n * f) = Finite r" "r \<le> - 1" by blast
      have "\<lceil>r\<rceil> \<le> - 1" using r(2) by (simp add: ceiling_le_iff)
      then have "trunc r < 0" using r(2) by (simp add: trunc_def)
      then show ?thesis by (auto simp: trainCount_def prod r(1) Let_def split: if_splits)
    qed
  next
    assume "of_nat n + 1 \<le> of_nat n * f"
    then have a: "of_nat (Suc n) \<le> of_nat n * f" by simp
    have "Suc n \<le> 2 ^ 53" using n by simp
    from round64_lower[OF a _ this]
    have "round64 (of_nat n * f) = PosInf
        \<or> (\<exists>r. round64 (of_nat n * f) = Finite r \<and> of_nat (Suc n) \<le> r)"
      by simp
    then show ?thesis
    proof
      assume "round64 (of_nat n * f) = PosInf"
      then show ?thesis by (simp add: trainCount_def prod)
    next
      assume "\<exists>r. round64 (of_nat n * f) = Finite r \<and> of_nat (Suc n) \<le> r"
      then obtain r where r: "round64 (of_nat n * f) = Finite r" "of_nat (Suc n) \<le> r" by blast
      have "0 \<le> r" using r(2) by (metis of_nat_0_le_iff order_trans)
      moreover have "int (Suc n) \<le> \<lfloor>r\<rfloor>" using r(2) by (simp add: le_floor_iff)
      ultimately have "int n < trunc r" by (simp add: trunc_def)
      then show ?thesis by (auto simp: trainCount_def prod r(1) Let_def split: if_splits)
    qed
  qed
qed

lemma round64_three_halves: "round64 (3 / 2) = Finite (3 / 2)"
proof -
  have k: "scale_up 1074 \<bar>3 / 2 :: rat\<bar> = 52" by (simp add: scale_up_numeral)
  have m: "round_half_even (\<bar>3 / 2\<bar> * 2 ^ 52) = 6755399441055744"
    by (rule rhe_near) simp
  show ?thesis using round64_small[OF _ _ k m] by simp
qed


text \<open>
  C5, as the claim states it, fails: a fraction outside \<open>[0, 1]\<close> does not always
  give a train count outside the index range, because \<^verbatim>\<open>int(x)\<close> truncates towards
  zero. With the fraction 1.5 and one record the product is 1.5, the train count is
  1, and the call returns normally with the record in the train set.
\<close>

theorem SplitDataset_fraction_counterexample:
  "SplitDataset go_lib (test_config\<lparr>TrainSplit := Finite (3 / 2)\<rparr>) 0 [hd test_pairs]
     = Inr (([hd test_pairs], []), 42)"
proof -
  define c where "c = test_config\<lparr>TrainSplit := Finite (3 / 2)\<rparr>"
  have ts: "TrainSplit c = Finite (3 / 2)" and sd: "Seed c = 42"
    by (simp_all add: c_def test_config_def)
  have "float64_of_int 1 = Finite 1"
    using round64_of_nat[of 1] by (simp add: float64_of_int_def)
  then have "f64_mul (float64_of_int 1) (Finite (3 / 2)) = Finite (3 / 2)"
    by (simp add: round64_three_halves)
  moreover have "trunc (3 / 2) = 1" by (simp add: trunc_def floor_unique)
  ultimately have tc: "trainCount c (Suc 0) = Some 1"
    by (simp add: trainCount_def Let_def ts)
  have "SplitDataset go_lib c 0 [hd test_pairs] = Inr (([hd test_pairs], []), 42)"
    by (simp add: SplitDataset_def Let_def Shuffle_def tc sd go_lib_def lcg_Seed_def)
  then show ?thesis by (simp only: c_def)
qed

text \<open>
  The conversion \<^verbatim>\<open>int(x)\<close> of a product at most \<open>- 1\<close> or at least \<open>n + 1\<close> is
  outside \<open>0 .. n\<close>, and that of a product strictly between the two is inside.
\<close>

lemma trunc_outside:
  assumes "r \<le> - 1 \<or> of_nat n + 1 \<le> r"
  shows "trunc r < 0 \<or> int n < trunc r"
  using assms
proof
  assume r: "r \<le> - 1"
  then have "\<lceil>r\<rceil> \<le> - 1" by (simp add: ceiling_le_iff)
  then show ?thesis using r by (simp add: trunc_def)
next
  assume r: "of_nat n + 1 \<le> r"
  then have "of_nat (Suc n) \<le> r" by simp
  then have "int (Suc n) \<le> \<lfloor>r\<rfloor>" by (simp add: le_floor_iff)
  moreover have "0 \<le> r" using r by (metis of_nat_0_le_iff add_increasing2 zero_le_one order_trans)
  ultimately show ?thesis by (simp add: trunc_def)
qed

lemma trunc_inside:
  assumes "- 1 < r" "r < of_nat n + 1"
  shows "0 \<le> trunc r \<and> trunc r \<le> int n"
proof (cases "0 \<le> r")
  case True
  have "r < of_int (int n + 1)" using assms(2) by simp
  then have "\<lfloor>r\<rfloor> < int n + 1" by (simp only: floor_less_iff)
  then show ?thesis using True by (simp add: trunc_def)
next
  case False
  have "\<lceil>r\<rceil> = 0" using False assms(1) by (intro ceiling_unique) simp_all
  then show ?thesis using False by (simp add: trunc_def)
qed

text \<open>Three records and the double nearest 4/3: the product rounds up to 4.\<close>

lemma round64_four_thirds: "round64 (4 / 3) = Finite (6004799503160661 / 2 ^ 52)"
proof -
  have k: "scale_up 1074 \<bar>4 / 3 :: rat\<bar> = 52" by (simp add: scale_up_numeral)
  have m: "round_half_even (\<bar>4 / 3\<bar> * 2 ^ 52) = 6004799503160661"
    by (rule rhe_near) simp
  show ?thesis using round64_small[OF _ _ k m] by simp
qed

lemma round64_three_four_thirds: "round64 (3 * (6004799503160661 / 2 ^ 52)) = Finite 4"
proof -
  have k: "scale_up 1074 \<bar>3 * (6004799503160661 / 2 ^ 52) :: rat\<bar> = 51"
    by (simp add: scale_up_numeral)
  have "round_half_even (\<bar>3 * (6004799503160661 / 2 ^ 52)\<bar> * 2 ^ 51)
          = (if even (9007199254740991::int) then 9007199254740991 else 9007199254740991 + 1)"
    by (rule rhe_tie) simp
  then have m: "round_half_even (\<bar>3 * (6004799503160661 / 2 ^ 52)\<bar> * 2 ^ 51) = 9007199254740992"
    by simp
  show ?thesis using round64_small[OF _ _ k m] by simp
qed

lemma f64_mul_four_thirds: "f64_mul (float64_of_int 3) (round64 (4 / 3)) = Finite 4"
proof -
  have "float64_of_int 3 = Finite 3"
    using round64_of_nat[of 3] by (simp add: float64_of_int_def)
  then show ?thesis
    using round64_three_four_thirds by (simp add: round64_four_thirds)
qed

text \<open>
  C5, amended. \<^verbatim>\<open>SplitDataset\<close> does not validate the train fraction; what it does
  is decided by the \<^verbatim>\<open>float64\<close> product \<^verbatim>\<open>float64(len) * TrainSplit\<close>. When the
  product is at most \<open>- 1\<close> or at least \<open>|R| + 1\<close>, every train count the
  conversion yields is negative or greater than the length, and the call ends in a
  slice-bounds panic, or, when the product does not fit an \<^verbatim>\<open>int\<close>, in the
  conversion that the language leaves to the implementation, as it does when the
  product is infinite or NaN; it returns no error value and no split. When the
  product lies strictly between \<open>- 1\<close> and \<open>|R| + 1\<close> the call returns a split
  whose train size is the product with its fraction discarded, also for a fraction
  outside \<open>[0, 1]\<close>.
\<close>

theorem SplitDataset_fraction_unvalidated:
  assumes contract: "\<forall>g b. 0 < b \<longrightarrow> fst (rand_intn L g b) < b"
    and size: "length pairs < 2 ^ 63"
  shows "(\<forall>r. f64_mul (float64_of_int (int (length pairs))) (TrainSplit c) = Finite r
              \<and> (r \<le> - 1 \<or> of_nat (length pairs) + 1 \<le> r) \<longrightarrow>
            (\<forall>k. trainCount c (length pairs) = Some k \<longrightarrow> k < 0 \<or> int (length pairs) < k)
          \<and> SplitDataset L c g0 pairs
              = (if - (2 ^ 63) \<le> trunc r \<and> trunc r < 2 ^ 63
                 then Inl SliceBoundsOutOfRange else Inl ConversionUndefined))
       \<and> (f64_mul (float64_of_int (int (length pairs))) (TrainSplit c) \<in> {PosInf, NegInf, NaN} \<longrightarrow>
            SplitDataset L c g0 pairs = Inl ConversionUndefined)
       \<and> (\<forall>r. f64_mul (float64_of_int (int (length pairs))) (TrainSplit c) = Finite r
              \<and> - 1 < r \<and> r < of_nat (length pairs) + 1 \<longrightarrow>
            (\<exists>train val g'. SplitDataset L c g0 pairs = Inr ((train, val), g')
                \<and> int (length train) = trunc r))"
proof -
  obtain ys g' where ms: "mset ys = mset pairs" and
    res: "SplitDataset L c g0 pairs =
             (case trainCount c (length pairs) of
                None \<Rightarrow> Inl ConversionUndefined
              | Some k \<Rightarrow>
                  if 0 \<le> k \<and> k \<le> int (length pairs)
                  then Inr ((take (nat k) ys, drop (nat k) ys), g')
                  else Inl SliceBoundsOutOfRange)"
    using SplitDataset_by_trainCount[OF contract] by blast
  have len: "length ys = length pairs" using ms by (rule mset_eq_length)
  have 1: "(\<forall>k. trainCount c (length pairs) = Some k \<longrightarrow> k < 0 \<or> int (length pairs) < k)
          \<and> SplitDataset L c g0 pairs
              = (if - (2 ^ 63) \<le> trunc r \<and> trunc r < 2 ^ 63
                 then Inl SliceBoundsOutOfRange else Inl ConversionUndefined)"
    if p: "f64_mul (float64_of_int (int (length pairs))) (TrainSplit c) = Finite r"
      and out: "r \<le> - 1 \<or> of_nat (length pairs) + 1 \<le> r" for r
  proof -
    have t: "trunc r < 0 \<or> int (length pairs) < trunc r" using out by (rule trunc_outside)
    have tc: "trainCount c (length pairs)
        = (if - (2 ^ 63) \<le> trunc r \<and> trunc r < 2 ^ 63 then Some (trunc r) else None)"
      by (simp add: trainCount_def p Let_def)
    show ?thesis unfolding res tc using t by auto
  qed
  have 2: "SplitDataset L c g0 pairs = Inl ConversionUndefined"
    if "f64_mul (float64_of_int (int (length pairs))) (TrainSplit c) \<in> {PosInf, NegInf, NaN}"
    unfolding res using that by (auto simp: trainCount_def)
  have 3: "\<exists>train val g'. SplitDataset L c g0 pairs = Inr ((train, val), g')
                \<and> int (length train) = trunc r"
    if p: "f64_mul (float64_of_int (int (length pairs))) (TrainSplit c) = Finite r"
      and ins: "- 1 < r" "r < of_nat (length pairs) + 1" for r
  proof -
    have t: "0 \<le> trunc r" "trunc r \<le> int (length pairs)" using trunc_inside[OF ins] by simp_all
    have "int (length pairs) < 2 ^ 63" using size by (metis of_nat_less_iff of_nat_numeral of_nat_power)
    then have fits: "- (2 ^ 63) \<le> trunc r \<and> trunc r < 2 ^ 63" using t by simp
    have tc: "trainCount c (length pairs) = Some (trunc r)"
      using fits by (simp add: trainCount_def p Let_def)
    have "SplitDataset L c g0 pairs = Inr ((take (nat (trunc r)) ys, drop (nat (trunc r)) ys), g')"
      unfolding res tc using t by simp
    moreover have "int (length (take (nat (trunc r)) ys)) = trunc r" using t by (simp add: len)
    ultimately show ?thesis by blast
  qed
  show ?thesis using 1 2 3 by blast
qed

theorem SplitDataset_fraction_unvalidated_witness:
  "f64_mul (float64_of_int (int (length test_pairs))) (round64 (4 / 3)) = Finite 4
   \<and> rat_of_nat (length test_pairs) + 1 \<le> 4
   \<and> SplitDataset go_lib (test_config\<lparr>TrainSplit := round64 (4 / 3)\<rparr>) 0 test_pairs
        = Inl SliceBoundsOutOfRange
   \<and> SplitDataset go_lib (test_config\<lparr>TrainSplit := PosInf\<rparr>) 0 test_pairs
        = Inl ConversionUndefined
   \<and> (\<exists>train val g'. SplitDataset go_lib test_config 0 test_pairs = Inr ((train, val), g')
         \<and> length train = 2)"
proof -
  have n: "length test_pairs < 2 ^ 63" by (simp add: test_pairs_def)
  have l3: "int (length test_pairs) = 3" by (simp add: test_pairs_def)
  have p1: "f64_mul (float64_of_int (int (length test_pairs)))
              (TrainSplit (test_config\<lparr>TrainSplit := round64 (4 / 3)\<rparr>)) = Finite 4"
    by (simp add: l3 f64_mul_four_thirds)
  have o1: "(4::rat) \<le> - 1 \<or> rat_of_nat (length test_pairs) + 1 \<le> 4" by (simp add: test_pairs_def)
  have t4: "trunc 4 = 4" by (simp add: trunc_def)
  have c3: "float64_of_int 3 = Finite 3"
    using round64_of_nat[of 3] by (simp add: float64_of_int_def)
  have p2: "f64_mul (float64_of_int (int (length test_pairs)))
              (TrainSplit (test_config\<lparr>TrainSplit := PosInf\<rparr>)) \<in> {PosInf, NegInf, NaN}"
    by (simp add: l3 c3)
  have p3: "f64_mul (float64_of_int (int (length test_pairs))) (TrainSplit test_config)
              = Finite (5404319552844596 / 2 ^ 51)"
    by (simp add: l3 test_config_def f64_mul_test)
  have i3: "- 1 < (5404319552844596 / 2 ^ 51 :: rat)"
    "(5404319552844596 / 2 ^ 51 :: rat) < rat_of_nat (length test_pairs) + 1"
    by (simp_all add: test_pairs_def)
  have t3: "trunc (5404319552844596 / 2 ^ 51) = 2"
  proof -
    have "\<lfloor>5404319552844596 / 2 ^ 51 :: rat\<rfloor> = 2" by (rule floor_unique) simp_all
    then show ?thesis by (simp add: trunc_def)
  qed
  note split_at = SplitDataset_fraction_unvalidated[OF lcg_contract n]
  have a: "SplitDataset go_lib (test_config\<lparr>TrainSplit := round64 (4 / 3)\<rparr>) 0 test_pairs
        = Inl SliceBoundsOutOfRange"
    using split_at[of "test_config\<lparr>TrainSplit := round64 (4 / 3)\<rparr>" 0] p1 o1 t4 by auto
  have b: "SplitDataset go_lib (test_config\<lparr>TrainSplit := PosInf\<rparr>) 0 test_pairs
        = Inl ConversionUndefined"
    using split_at[of "test_config\<lparr>TrainSplit := PosInf\<rparr>" 0] p2 by blast
  have "\<exists>train val g'. SplitDataset go_lib test_config 0 test_pairs = Inr ((train, val), g')
         \<and> int (length train) = trunc (5404319552844596 / 2 ^ 51)"
    using split_at[of test_config 0] p3 i3 by blast
  then have c: "\<exists>train val g'. SplitDataset go_lib test_config 0 test_pairs = Inr ((train, val), g')
         \<and> length train = 2"
    unfolding t3 by auto
  have p1': "f64_mul (float64_of_int (int (length test_pairs))) (round64 (4 / 3)) = Finite 4"
    using p1 by simp
  have o1': "rat_of_nat (length test_pairs) + 1 \<le> 4" by (simp add: test_pairs_def)
  show ?thesis using p1' o1' a b c by blast
qed



subsection \<open>The caller's slice is left alone\<close>

lemma trainCount_test: "trainCount test_config 3 = Some 2"
proof -
  have "trunc (5404319552844596 / 2 ^ 51) = 2"
    unfolding trunc_def by (simp add: floor_unique)
  then show ?thesis
    using f64_mul_test by (simp add: trainCount_def test_config_def Let_def)
qed

lemma swap_slice_frame:
  assumes "swap_slice s i j h = Inr h'"
  shows "length h' = length h \<and> (\<forall>a. a \<noteq> arr s \<longrightarrow> h' ! a = h ! a)"
  using assms by (auto simp: swap_slice_def Let_def split: if_splits)

lemma Shuffle_loop_frame:
  "Shuffle_loop intn (swap_slice s) i g h = Inr (h', g') \<Longrightarrow>
     length h' = length h \<and> (\<forall>a. a \<noteq> arr s \<longrightarrow> h' ! a = h ! a)"
proof (induction i arbitrary: g h)
  case 0
  then show ?case by simp
next
  case (Suc i)
  obtain j g1 where draw: "intn g (Suc i + 1) = (j, g1)" by (cases "intn g (Suc i + 1)")
  from Suc.prems draw obtain h1 where
    sw: "swap_slice s (Suc i) j h = Inr h1"
    and rest: "Shuffle_loop intn (swap_slice s) i g1 h1 = Inr (h', g')"
    by (auto split: sum.splits)
  from swap_slice_frame[OF sw] Suc.IH[OF rest] show ?case by simp
qed

lemma copy_make_frame:
  assumes "make_slice h n = (h1, s)"
  shows "length (copy_slice h1 s src) = Suc (length h)
       \<and> (\<forall>a < length h. copy_slice h1 s src ! a = h ! a) \<and> arr s = length h"
  using assms by (auto simp: make_slice_def copy_slice_def Let_def nth_append)

lemma swap_slice_sim:
  assumes "arr s < length h" "off s = 0" "len s = length (h ! arr s)"
  shows "swap_slice s i j h =
           (case swap_elems i j (h ! arr s) of Inl e \<Rightarrow> Inl e | Inr ys \<Rightarrow> Inr (h[arr s := ys]))"
  using assms by (simp add: swap_slice_def swap_elems_def Let_def)

lemma Shuffle_loop_sim:
  assumes "arr s < length h" "off s = 0" "len s = length (h ! arr s)"
  shows "Shuffle_loop intn (swap_slice s) i g h =
           (case Shuffle_loop intn swap_elems i g (h ! arr s) of
              Inl e \<Rightarrow> Inl e
            | Inr (ys, g') \<Rightarrow> Inr (h[arr s := ys], g'))"
  using assms
proof (induction i arbitrary: g h)
  case 0
  then show ?case by simp
next
  case (Suc i)
  obtain j g1 where draw: "intn g (Suc i + 1) = (j, g1)" by (cases "intn g (Suc i + 1)")
  show ?case
  proof (cases "swap_elems (Suc i) j (h ! arr s)")
    case (Inl e)
    then show ?thesis using draw Suc.prems by (simp add: swap_slice_sim)
  next
    case (Inr ys)
    then have len: "length ys = length (h ! arr s)"
      by (auto simp: swap_elems_def split: if_splits)
    define h1 where "h1 = h[arr s := ys]"
    have p: "arr s < length h1" "off s = 0" "len s = length (h1 ! arr s)"
      using Suc.prems len by (simp_all add: h1_def)
    have "Shuffle_loop intn (swap_slice s) (Suc i) g h = Shuffle_loop intn (swap_slice s) i g1 h1"
      using draw Inr Suc.prems by (simp add: swap_slice_sim h1_def)
    also have "\<dots> = (case Shuffle_loop intn swap_elems i g1 (h1 ! arr s) of
              Inl e \<Rightarrow> Inl e
            | Inr (ys', g') \<Rightarrow> Inr (h1[arr s := ys'], g'))"
      using p by (rule Suc.IH)
    also have "\<dots> = (case Shuffle_loop intn swap_elems (Suc i) g (h ! arr s) of
              Inl e \<Rightarrow> Inl e
            | Inr (ys', g') \<Rightarrow> Inr (h[arr s := ys'], g'))"
      using draw Inr Suc.prems by (auto simp: h1_def split: sum.splits)
    finally show ?thesis .
  qed
qed

lemma Shuffle_loop_length:
  "Shuffle_loop intn swap_elems i g xs = Inr (ys, g') \<Longrightarrow> length ys = length xs"
proof (induction i arbitrary: g xs)
  case 0
  then show ?case by simp
next
  case (Suc i)
  obtain j g1 where draw: "intn g (Suc i + 1) = (j, g1)" by (cases "intn g (Suc i + 1)")
  from Suc.prems draw obtain zs where
    sw: "swap_elems (Suc i) j xs = Inr zs"
    and rest: "Shuffle_loop intn swap_elems i g1 zs = Inr (ys, g')"
    by (auto split: sum.splits)
  have "length zs = length xs" using sw by (auto simp: swap_elems_def split: if_splits)
  then show ?case using Suc.IH[OF rest] by simp
qed

text \<open>The function on slices computes what the function on list values computes.\<close>

lemma SplitDataset_mem_refines:
  assumes valid: "slice_valid h pairs"
  shows "(case SplitDataset_mem L c g0 h pairs of
            Inl e \<Rightarrow> Inl e
          | Inr ((tr, va), g', h') \<Rightarrow> Inr ((slice_list h' tr, slice_list h' va), g'))
         = SplitDataset L c g0 (slice_list h pairs)"
proof -
  define n where "n = len pairs"
  define xs where "xs = slice_list h pairs"
  define zero where "zero = \<lparr>ImagePath = ([] :: path), LabelPath = ([] :: path)\<rparr>"
  define sh where "sh = \<lparr>arr = length h, off = 0, len = n, cap = n\<rparr>"
  define h1 where "h1 = h @ [replicate n zero]"
  have mk: "make_slice h (len pairs) = (h1, sh)"
    by (simp add: make_slice_def h1_def sh_def n_def zero_def)
  have lenxs: "length xs = n"
    using valid by (auto simp: xs_def n_def slice_list_def slice_valid_def)
  have "slice_list h1 pairs = xs"
    using valid by (simp add: slice_list_def slice_valid_def h1_def xs_def nth_append)
  then have h2: "copy_slice h1 sh pairs = h @ [xs]"
    using lenxs by (simp add: copy_slice_def Let_def sh_def h1_def n_def[symmetric])
  define h2 where "h2 = h @ [xs]"
  have p: "arr sh < length h2" "off sh = 0" "len sh = length (h2 ! arr sh)" "h2 ! arr sh = xs"
    using lenxs by (simp_all add: sh_def h2_def)
  have sim: "Shuffle (rand_intn L) n (swap_slice sh) (rand_Seed L (Seed c)) h2 =
           (case Shuffle (rand_intn L) n swap_elems (rand_Seed L (Seed c)) xs of
              Inl e \<Rightarrow> Inl e
            | Inr (ys, g') \<Rightarrow> Inr (h2[arr sh := ys], g'))"
    unfolding Shuffle_def using Shuffle_loop_sim[OF p(1,2,3)] by (simp add: p(4))
  show ?thesis
  proof (cases "Shuffle (rand_intn L) n swap_elems (rand_Seed L (Seed c)) xs")
    case (Inl e)
    then show ?thesis
      using sim mk h2
      by (simp add: SplitDataset_mem_def SplitDataset_def Let_def xs_def[symmetric] lenxs
          h2_def sh_def n_def[symmetric])
  next
    case (Inr r)
    obtain ys g' where r: "r = (ys, g')" by (cases r)
    have lenys: "length ys = n"
      using Inr[unfolded Shuffle_def r] Shuffle_loop_length lenxs by fastforce
    have h3: "h2[arr sh := ys] = h @ [ys]" by (simp add: h2_def sh_def)
    show ?thesis
    proof (cases "trainCount c n")
      case None
      then show ?thesis
        using sim mk h2 Inr r lenys
        by (simp add: SplitDataset_mem_def SplitDataset_def Let_def xs_def[symmetric] lenxs
            h2_def sh_def n_def[symmetric])
    next
      case (Some k)
      show ?thesis
      proof (cases "0 \<le> k \<and> k \<le> int n")
        case False
        then show ?thesis
          using sim mk h2 Inr r lenys Some
          by (auto simp: SplitDataset_mem_def SplitDataset_def Let_def xs_def[symmetric] lenxs
              h2_def sh_def n_def[symmetric] slice_upto_def slice_from_def)
      next
        case True
        then have kn: "nat k \<le> n" by linarith
        have a: "slice_list (h @ [ys]) \<lparr>arr = length h, off = 0, len = nat k, cap = n\<rparr> = take (nat k) ys"
          by (simp add: slice_list_def)
        have b: "slice_list (h @ [ys])
                   \<lparr>arr = length h, off = nat k, len = n - nat k, cap = n - nat k\<rparr> = drop (nat k) ys"
          using lenys by (simp add: slice_list_def)
        show ?thesis
          using sim mk h2 Inr r lenys Some True a b
          by (simp add: SplitDataset_mem_def SplitDataset_def Let_def xs_def[symmetric] lenxs
              h2_def sh_def n_def[symmetric] slice_upto_def slice_from_def)
      qed
    qed
  qed
qed


lemma SplitDataset_mem_unchanged:
  assumes ok: "SplitDataset_mem L c g0 h pairs = Inr ((trainPairs, valPairs), g', h')"
  shows "take (length h) h' = h \<and> length h' = Suc (length h)
       \<and> arr trainPairs = length h \<and> arr valPairs = length h"
proof -
  obtain h1 shuffled where mk: "make_slice h (len pairs) = (h1, shuffled)"
    by (cases "make_slice h (len pairs)")
  define h2 where "h2 = copy_slice h1 shuffled pairs"
  have fr2: "length h2 = Suc (length h)" "\<forall>a < length h. h2 ! a = h ! a" "arr shuffled = length h"
    using copy_make_frame[OF mk] by (simp_all add: h2_def)
  from ok mk obtain k where
    sh: "Shuffle (rand_intn L) (len shuffled) (swap_slice shuffled) (rand_Seed L (Seed c)) h2 = Inr (h', g')"
    and tr: "slice_upto shuffled k = Inr trainPairs"
    and va: "slice_from shuffled k = Inr valPairs"
    by (auto simp: SplitDataset_mem_def Let_def h2_def split: sum.splits option.splits)
  have fr3: "length h' = length h2" "\<forall>a. a \<noteq> arr shuffled \<longrightarrow> h' ! a = h2 ! a"
    using Shuffle_loop_frame[OF sh[unfolded Shuffle_def]] by simp_all
  have same: "\<forall>a < length h. h' ! a = h ! a" using fr2 fr3 by simp
  have 1: "take (length h) h' = h"
    using same fr2(1) fr3(1) by (intro nth_equalityI) simp_all
  have 3: "arr trainPairs = length h" using tr fr2(3) by (auto simp: slice_upto_def split: if_splits)
  have 4: "arr valPairs = length h" using va fr2(3) by (auto simp: slice_from_def split: if_splits)
  show ?thesis using 1 3 4 fr2(1) fr3(1) by simp
qed

lemma slice_list_unchanged:
  assumes "take (length h) h' = h" "arr s < length h"
  shows "slice_list h' s = slice_list h s"
proof -
  have "h' ! arr s = take (length h) h' ! arr s" using assms(2) by simp
  then show ?thesis using assms(1) by (simp add: slice_list_def)
qed

lemma slice_valid_unchanged:
  assumes "take (length h) h' = h" "length h \<le> length h'" "slice_valid h s"
  shows "slice_valid h' s"
proof -
  have a: "arr s < length h" using assms(3) by (simp add: slice_valid_def)
  have "h' ! arr s = take (length h) h' ! arr s" using a by simp
  then show ?thesis using assms a by (simp add: slice_valid_def)
qed

text \<open>
  C10. \<^verbatim>\<open>SplitDataset\<close> leaves its input record list unchanged: when the call
  returns, every array that was on the heap before it holds what it held, so the
  caller's \<^verbatim>\<open>pairs\<close> slice has the same records in the same order; the two
  returned slices point into the array that \<^verbatim>\<open>make\<close> allocated during the call,
  on which the shuffle worked.
\<close>

theorem SplitDataset_mem_frame:
  assumes ok: "SplitDataset_mem L c g0 h pairs = Inr ((trainPairs, valPairs), g', h')"
    and valid: "slice_valid h pairs"
  shows "take (length h) h' = h
       \<and> slice_list h' pairs = slice_list h pairs
       \<and> arr trainPairs = length h \<and> arr valPairs = length h"
proof -
  note u = SplitDataset_mem_unchanged[OF ok]
  have "arr pairs < length h" using valid by (simp add: slice_valid_def)
  then have "slice_list h' pairs = slice_list h pairs" using u slice_list_unchanged by blast
  then show ?thesis using u by simp
qed

theorem SplitDataset_mem_frame_witness:
  "\<exists>trainPairs valPairs g' h'.
      SplitDataset_mem go_lib test_config 0 [test_pairs] \<lparr>arr = 0, off = 0, len = 3, cap = 3\<rparr>
        = Inr ((trainPairs, valPairs), g', h')
    \<and> slice_valid [test_pairs] \<lparr>arr = 0, off = 0, len = 3, cap = 3\<rparr>
    \<and> slice_list h' \<lparr>arr = 0, off = 0, len = 3, cap = 3\<rparr> = test_pairs
    \<and> take 1 h' = [test_pairs]
    \<and> arr trainPairs = 1 \<and> arr valPairs = 1"
proof -
  define s where "s = \<lparr>arr = 0, off = 0, len = 3, cap = 3\<rparr>"
  have valid: "slice_valid [test_pairs] s" by (simp add: slice_valid_def s_def test_pairs_def)
  have sl: "slice_list [test_pairs] s = test_pairs" by (simp add: slice_list_def s_def test_pairs_def)
  obtain ys g' where "SplitDataset go_lib test_config 0 test_pairs =
             (case trainCount test_config (length test_pairs) of
                None \<Rightarrow> Inl ConversionUndefined
              | Some k \<Rightarrow>
                  if 0 \<le> k \<and> k \<le> int (length test_pairs)
                  then Inr ((take (nat k) ys, drop (nat k) ys), g')
                  else Inl SliceBoundsOutOfRange)"
    using SplitDataset_by_trainCount[OF lcg_contract] by blast
  moreover have "length test_pairs = 3" by (simp add: test_pairs_def)
  ultimately have "\<exists>r. SplitDataset go_lib test_config 0 test_pairs = Inr r"
    by (simp add: trainCount_test)
  then obtain r where "SplitDataset go_lib test_config 0 (slice_list [test_pairs] s) = Inr r"
    using sl by auto
  with SplitDataset_mem_refines[OF valid, of go_lib test_config 0]
  obtain trainPairs valPairs g' h' where
    ok: "SplitDataset_mem go_lib test_config 0 [test_pairs] s = Inr ((trainPairs, valPairs), g', h')"
    by (cases "SplitDataset_mem go_lib test_config 0 [test_pairs] s") auto
  from SplitDataset_mem_frame[OF ok valid] sl
  have "take 1 h' = [test_pairs] \<and> slice_list h' s = test_pairs
      \<and> arr trainPairs = 1 \<and> arr valPairs = 1" by simp
  then show ?thesis using ok valid unfolding s_def by blast
qed



subsection \<open>The split is deterministic\<close>

lemma test_split_returns:
  "\<exists>trainPairs valPairs g' h'.
      SplitDataset_mem go_lib test_config 0 [test_pairs] \<lparr>arr = 0, off = 0, len = 3, cap = 3\<rparr>
        = Inr ((trainPairs, valPairs), g', h')"
proof -
  define s where "s = \<lparr>arr = 0, off = 0, len = 3, cap = 3\<rparr>"
  have valid: "slice_valid [test_pairs] s" by (simp add: slice_valid_def s_def test_pairs_def)
  have sl: "slice_list [test_pairs] s = test_pairs" by (simp add: slice_list_def s_def test_pairs_def)
  obtain ys g' where "SplitDataset go_lib test_config 0 test_pairs =
             (case trainCount test_config (length test_pairs) of
                None \<Rightarrow> Inl ConversionUndefined
              | Some k \<Rightarrow>
                  if 0 \<le> k \<and> k \<le> int (length test_pairs)
                  then Inr ((take (nat k) ys, drop (nat k) ys), g')
                  else Inl SliceBoundsOutOfRange)"
    using SplitDataset_by_trainCount[OF lcg_contract] by blast
  moreover have "length test_pairs = 3" by (simp add: test_pairs_def)
  ultimately have "\<exists>r. SplitDataset go_lib test_config 0 test_pairs = Inr r"
    by (simp add: trainCount_test)
  then obtain r where "SplitDataset go_lib test_config 0 (slice_list [test_pairs] s) = Inr r"
    using sl by auto
  with SplitDataset_mem_refines[OF valid, of go_lib test_config 0]
  show ?thesis unfolding s_def
    by (cases "SplitDataset_mem go_lib test_config 0 [test_pairs] \<lparr>arr = 0, off = 0, len = 3, cap = 3\<rparr>")
       auto
qed

text \<open>
  C4. \<^verbatim>\<open>SplitDataset\<close> is deterministic. On record lists the outcome is the same
  whatever the state of the random source before the call. On slices: when a call
  on the caller's slice returns, a second call on the same slice, with the same
  fraction and seed and with the source in any state, returns too; its train and
  validation slices hold the same records in the same order as those of the first
  call, which are still intact, and the source is left in the same state. Nothing
  but the record list, the fraction and the seed enters the result.
\<close>

theorem SplitDataset_deterministic:
  assumes valid: "slice_valid h pairs"
    and first: "SplitDataset_mem L c g0 h pairs = Inr ((tr1, va1), g1, h1)"
  shows "SplitDataset L c g0 (slice_list h pairs) = SplitDataset L c g (slice_list h pairs)
       \<and> (\<exists>tr2 va2 h2.
             SplitDataset_mem L c g h1 pairs = Inr ((tr2, va2), g1, h2)
           \<and> slice_list h2 tr2 = slice_list h1 tr1 \<and> slice_list h2 va2 = slice_list h1 va1
           \<and> slice_list h2 tr1 = slice_list h1 tr1 \<and> slice_list h2 va1 = slice_list h1 va1)"
proof -
  note u1 = SplitDataset_mem_unchanged[OF first]
  have a: "arr pairs < length h" using valid by (simp add: slice_valid_def)
  have same_in: "slice_list h1 pairs = slice_list h pairs" using u1 a slice_list_unchanged by blast
  have valid1: "slice_valid h1 pairs" using u1 valid slice_valid_unchanged[of h h1 pairs] by simp
  have r1: "SplitDataset L c g0 (slice_list h pairs)
              = Inr ((slice_list h1 tr1, slice_list h1 va1), g1)"
    using SplitDataset_mem_refines[OF valid, of L c g0] first by simp
  then have "SplitDataset L c g (slice_list h1 pairs)
              = Inr ((slice_list h1 tr1, slice_list h1 va1), g1)"
    using SplitDataset_seeded[of L c g "slice_list h pairs" g0] same_in by simp
  with SplitDataset_mem_refines[OF valid1, of L c g]
  obtain tr2 va2 h2 where
    second: "SplitDataset_mem L c g h1 pairs = Inr ((tr2, va2), g1, h2)"
    and c2: "slice_list h2 tr2 = slice_list h1 tr1" "slice_list h2 va2 = slice_list h1 va1"
    by (cases "SplitDataset_mem L c g h1 pairs") auto
  note u2 = SplitDataset_mem_unchanged[OF second]
  have "arr tr1 < length h1" "arr va1 < length h1" using u1 by simp_all
  then have keep: "slice_list h2 tr1 = slice_list h1 tr1" "slice_list h2 va1 = slice_list h1 va1"
    using u2 slice_list_unchanged by blast+
  show ?thesis using SplitDataset_seeded[of L c g0 _ g] second c2 keep by blast
qed


theorem SplitDataset_deterministic_witness:
  "slice_valid [test_pairs] \<lparr>arr = 0, off = 0, len = 3, cap = 3\<rparr>
   \<and> (\<exists>tr1 va1 g1 h1 tr2 va2 h2.
         SplitDataset_mem go_lib test_config 0 [test_pairs] \<lparr>arr = 0, off = 0, len = 3, cap = 3\<rparr>
           = Inr ((tr1, va1), g1, h1)
       \<and> SplitDataset_mem go_lib test_config 99 h1 \<lparr>arr = 0, off = 0, len = 3, cap = 3\<rparr>
           = Inr ((tr2, va2), g1, h2)
       \<and> slice_list h2 tr2 = slice_list h1 tr1 \<and> slice_list h2 va2 = slice_list h1 va1)"
proof -
  have valid: "slice_valid [test_pairs] \<lparr>arr = 0, off = 0, len = 3, cap = 3\<rparr>"
    by (simp add: slice_valid_def test_pairs_def)
  from test_split_returns obtain tr1 va1 g1 h1 where
    first: "SplitDataset_mem go_lib test_config 0 [test_pairs] \<lparr>arr = 0, off = 0, len = 3, cap = 3\<rparr>
              = Inr ((tr1, va1), g1, h1)" by blast
  from SplitDataset_deterministic[OF valid first, of 99]
  show ?thesis using valid first by blast
qed

subsection \<open>The label validator, line by line\<close>

text \<open>
  What the scanner loop does with one line: a blank line changes nothing; a line of
  five fields whose first field \<^verbatim>\<open>Atoi\<close> reads and whose other four fields the
  coordinate loop accepts adds one to \<^verbatim>\<open>validLines\<close>; every other line adds exactly
  one to the invalid-line counter. A coordinate is accepted when it parses and is
  neither below 0 nor above 1: a finite value in \<open>[0, 1]\<close>, or NaN, for which
  both comparisons are false.
\<close>

lemma coord_accepted_iff:
  "coord_accepted L tok \<longleftrightarrow>
     (\<exists>x. ParseFloat L tok = Some x \<and> (x = NaN \<or> (\<exists>r. x = Finite r \<and> 0 \<le> r \<and> r \<le> 1)))"
proof (cases "ParseFloat L tok")
  case None
  then show ?thesis by (simp add: coord_accepted_def)
next
  case (Some x)
  then show ?thesis
    by (cases x) (auto simp: coord_accepted_def f64_greater_def)
qed

lemma coord_loop_eq:
  "coord_loop L parts idx bad =
     (if list_all (\<lambda>i. coord_accepted L (parts ! i)) idx then (True, bad) else (False, bad + 1))"
  by (induction idx) (auto simp: coord_accepted_def split: option.splits)

lemma validate_line_eq:
  "validate_line L (bad, v) raw =
     (if TrimSpace raw = [] then (bad, v)
      else if length (Fields (TrimSpace raw)) = 5
              \<and> Atoi L (Fields (TrimSpace raw) ! 0) \<noteq> None
              \<and> list_all (\<lambda>i. coord_accepted L (Fields (TrimSpace raw) ! i)) [1, 2, 3, 4]
           then (bad, v + 1)
           else (bad + 1, v))"
  by (auto simp: validate_line_def Let_def coord_loop_eq split: option.splits)

text \<open>The scanner loop only adds to the two counters.\<close>

lemma validate_lines_fst_mono:
  "foldl (validate_line L) (bad, v) lines = (bad', v') \<Longrightarrow> bad \<le> bad'"
proof (induction lines arbitrary: bad v)
  case Nil
  then show ?case by simp
next
  case (Cons l ls)
  obtain b1 v1 where st: "validate_line L (bad, v) l = (b1, v1)" by (cases "validate_line L (bad, v) l")
  have "bad \<le> b1" using st by (auto simp: validate_line_eq split: if_splits)
  moreover have "b1 \<le> bad'" using Cons.IH[of b1 v1] Cons.prems st by simp
  ultimately show ?case by simp
qed

lemma ToLower_NaN: "ToLower ''NaN'' = ''nan''"
  by (simp add: ToLower_def to_lower_char_def)

lemma Fields_NaN_line: "Fields (TrimSpace ''0 NaN NaN NaN NaN'') = [''0'', ''NaN'', ''NaN'', ''NaN'', ''NaN'']"
  by (simp add: Fields_def TrimSpace_def is_space_def)

lemma go_Atoi_zero: "go_Atoi ''0'' = Some 0"
  by (simp add: go_Atoi_def split_sign_def digit_val_def)

lemma go_ParseFloat_NaN: "go_ParseFloat ''NaN'' = Some NaN"
  by (simp add: go_ParseFloat_def ToLower_NaN)


text \<open>
  C2. The claim counts a line valid only if the four coordinates are finite numbers
  in \<open>[0, 1]\<close>, and has every non-finite coordinate add to the invalid-line counter.
  The code accepts NaN: \<^verbatim>\<open>ParseFloat\<close> reads the token \<^verbatim>\<open>NaN\<close> without error, and
  \<^verbatim>\<open>coord < 0 || coord > 1\<close> is false for it. The line \<^verbatim>\<open>0 NaN NaN NaN NaN\<close> is
  counted valid, and a label file with this one line is reported as one annotation
  and no invalid line.
\<close>

theorem validate_NaN_line_counted_valid:
  "validate_line go_lib (0, 0) ''0 NaN NaN NaN NaN'' = (0, 1)
   \<and> ValidateLabels go_lib (open_scan go_lib nan_fs)
        [\<lparr>ImagePath = [''images'', ''a.jpg''], LabelPath = [''labels'', ''a.txt'']\<rparr>]
      = Inr \<lparr>TotalFiles = 1, TotalAnnotations = 1, FilesWithAnnotations = 1,
             EmptyFiles = 0, InvalidLines = 0\<rparr>"
proof -
  have tr: "TrimSpace ''0 NaN NaN NaN NaN'' = ''0 NaN NaN NaN NaN''"
    by (simp add: TrimSpace_def is_space_def)
  have line: "validate_line go_lib (0, 0) ''0 NaN NaN NaN NaN'' = (0, 1)"
    using Fields_NaN_line
    by (simp add: validate_line_def tr Let_def go_lib_def go_Atoi_zero go_ParseFloat_NaN f64_greater_def)
  have scan: "go_scan_lines (''0 NaN NaN NaN NaN'' @ [LF]) = ([''0 NaN NaN NaN NaN''], False)"
    by (simp add: go_scan_lines_def LF_def dropCR_def CR_def)
  have op: "open_scan go_lib nan_fs [''labels'', ''a.txt''] = Opened [''0 NaN NaN NaN NaN''] False"
    using scan by (simp add: open_scan_def nan_fs_def lookup_def go_lib_def)
  show ?thesis
    using line by (simp add: ValidateLabels_def validate_file_def op Let_def)
qed



subsection \<open>The file counters\<close>

lemma validate_file_counts:
  "FilesWithAnnotations (validate_file L opener st p) + EmptyFiles (validate_file L opener st p)
     + (if unreadable opener p then 1 else 0)
   = FilesWithAnnotations st + EmptyFiles st + 1
   \<and> TotalFiles (validate_file L opener st p) = TotalFiles st"
  by (auto simp: validate_file_def unreadable_def Let_def split: file_result.splits prod.splits)

lemma validate_files_counts:
  "FilesWithAnnotations (foldl (validate_file L opener) st ps)
     + EmptyFiles (foldl (validate_file L opener) st ps)
     + length (filter (unreadable opener) ps)
   = FilesWithAnnotations st + EmptyFiles st + length ps
   \<and> TotalFiles (foldl (validate_file L opener) st ps) = TotalFiles st"
proof (induction ps arbitrary: st)
  case Nil
  then show ?case by simp
next
  case (Cons p ps)
  from Cons.IH[of "validate_file L opener st p"] validate_file_counts[of L opener st p]
  show ?case by (simp split: if_splits)
qed


text \<open>
  C9. After \<^verbatim>\<open>ValidateLabels\<close>, \<^verbatim>\<open>total_files\<close> is the number of records, and
  \<^verbatim>\<open>files_with_annotations + empty_files\<close> is \<^verbatim>\<open>total_files\<close> less the number of
  records whose label file failed to open or whose scan ended with an error; when
  every label file opened and scanned, the two counters add up to \<^verbatim>\<open>total_files\<close>.
\<close>

theorem ValidateLabels_file_counts:
  assumes "ValidateLabels L opener pairs = Inr stats"
  shows "TotalFiles stats = length pairs
       \<and> FilesWithAnnotations stats + EmptyFiles stats + length (filter (unreadable opener) pairs)
           = TotalFiles stats
       \<and> ((\<forall>p \<in> set pairs. \<not> unreadable opener p) \<longrightarrow>
            FilesWithAnnotations stats + EmptyFiles stats = TotalFiles stats)"
proof -
  define st0 where "st0 = \<lparr>TotalFiles = length pairs, TotalAnnotations = 0,
     FilesWithAnnotations = 0, EmptyFiles = 0, InvalidLines = 0\<rparr>"
  have stats: "stats = foldl (validate_file L opener) st0 pairs"
    using assms by (simp add: ValidateLabels_def st0_def)
  have c: "FilesWithAnnotations stats + EmptyFiles stats + length (filter (unreadable opener) pairs)
             = length pairs"
    and t: "TotalFiles stats = length pairs"
    using validate_files_counts[of L opener st0 pairs] by (simp_all add: stats st0_def)
  have "(\<forall>p \<in> set pairs. \<not> unreadable opener p) \<longrightarrow> filter (unreadable opener) pairs = []"
    by (simp add: filter_empty_conv)
  then show ?thesis using c t by auto
qed

lemma test_labels_readable: "\<forall>p \<in> set test_pairs. \<not> unreadable (open_scan go_lib test_fs) p"
  by (simp add: test_pairs_def unreadable_def open_scan_def lookup_def test_fs_def go_lib_def
      go_scan_lines_def LF_def split: prod.splits)

theorem ValidateLabels_file_counts_witness:
  "\<exists>stats. ValidateLabels go_lib (open_scan go_lib test_fs) test_pairs = Inr stats
     \<and> (\<forall>p \<in> set test_pairs. \<not> unreadable (open_scan go_lib test_fs) p)
     \<and> TotalFiles stats = 3
     \<and> FilesWithAnnotations stats + EmptyFiles stats = 3"
proof -
  obtain stats where st: "ValidateLabels go_lib (open_scan go_lib test_fs) test_pairs = Inr stats"
    by (simp add: ValidateLabels_def)
  from ValidateLabels_file_counts[OF st] test_labels_readable
  have "TotalFiles stats = length test_pairs"
    "FilesWithAnnotations stats + EmptyFiles stats = TotalFiles stats" by blast+
  then show ?thesis using st test_labels_readable by (auto simp: test_pairs_def)
qed



subsection \<open>The validator on the fixture of the repository's tests\<close>

text \<open>
  The model gives what \<^verbatim>\<open>TestValidateLabels\<close> expects for the fixture. A decimal
  coordinate between 0 and 1 is accepted whatever double it rounds to, since
  rounding keeps it between 0 and 1.
\<close>

lemma go_coord_decimal:
  assumes "ToLower s \<noteq> ''nan''" "split_sign (ToLower s) = (False, b)"
    "b \<noteq> ''inf''" "b \<noteq> ''infinity''" "parse_decimal b = Some q" "0 \<le> q" "q \<le> 1"
  shows "coord_accepted go_lib s"
proof -
  obtain r where r: "round64 q = Finite r" "0 \<le> r" "r \<le> 1"
    using round64_bound[of q 1] assms(6,7) by auto
  have "go_ParseFloat s = Some (Finite r)"
    using assms(1-5) r(1) by (simp add: go_ParseFloat_def Let_def)
  then show ?thesis using r(2,3) by (simp add: coord_accepted_def go_lib_def f64_greater_def)
qed

lemmas decimal_eval = ToLower_def to_lower_char_def split_sign_def parse_decimal_def is_digit_def
  digit_val_def parse_exponent_def pow10_def

lemma test_coords:
  "coord_accepted go_lib ''0.1''" "coord_accepted go_lib ''0.2''" "coord_accepted go_lib ''0.3''"
  "coord_accepted go_lib ''0.4''" "coord_accepted go_lib ''0.5''" "coord_accepted go_lib ''0.6''"
  "coord_accepted go_lib ''0.7''" "coord_accepted go_lib ''0.8''" "coord_accepted go_lib ''0.9''"
proof -
  show "coord_accepted go_lib ''0.1''"
    by (rule go_coord_decimal[where b = "''0.1''" and q = "1 / 10"]; simp add: decimal_eval)
  show "coord_accepted go_lib ''0.2''"
    by (rule go_coord_decimal[where b = "''0.2''" and q = "2 / 10"]; simp add: decimal_eval)
  show "coord_accepted go_lib ''0.3''"
    by (rule go_coord_decimal[where b = "''0.3''" and q = "3 / 10"]; simp add: decimal_eval)
  show "coord_accepted go_lib ''0.4''"
    by (rule go_coord_decimal[where b = "''0.4''" and q = "4 / 10"]; simp add: decimal_eval)
  show "coord_accepted go_lib ''0.5''"
    by (rule go_coord_decimal[where b = "''0.5''" and q = "5 / 10"]; simp add: decimal_eval)
  show "coord_accepted go_lib ''0.6''"
    by (rule go_coord_decimal[where b = "''0.6''" and q = "6 / 10"]; simp add: decimal_eval)
  show "coord_accepted go_lib ''0.7''"
    by (rule go_coord_decimal[where b = "''0.7''" and q = "7 / 10"]; simp add: decimal_eval)
  show "coord_accepted go_lib ''0.8''"
    by (rule go_coord_decimal[where b = "''0.8''" and q = "8 / 10"]; simp add: decimal_eval)
  show "coord_accepted go_lib ''0.9''"
    by (rule go_coord_decimal[where b = "''0.9''" and q = "9 / 10"]; simp add: decimal_eval)
qed

lemma go_Atoi_one: "go_Atoi ''1'' = Some 1"
  by (simp add: go_Atoi_def split_sign_def digit_val_def)

lemma test_lines:
  "validate_line go_lib (b, v) ''0 0.5 0.5 0.3 0.3'' = (b, v + 1)"
  "validate_line go_lib (b, v) ''1 0.2 0.8 0.1 0.1'' = (b, v + 1)"
  "validate_line go_lib (b, v) ''0 0.4 0.6 0.2 0.4'' = (b, v + 1)"
  "validate_line go_lib (b, v) ''1 0.7 0.3 0.3 0.2'' = (b, v + 1)"
  "validate_line go_lib (b, v) ''0 0.1 0.9 0.1 0.1'' = (b, v + 1)"
  by (simp_all add: validate_line_eq TrimSpace_def Fields_def is_space_def test_coords
      go_Atoi_zero go_Atoi_one go_lib_def[THEN arg_cong[where f = Atoi], simplified])


lemma test_label_files:
  "open_scan go_lib test_fs [''tmp'', ''labels'', ''image1.txt'']
     = Opened [''0 0.5 0.5 0.3 0.3'', ''1 0.2 0.8 0.1 0.1''] False"
  "open_scan go_lib test_fs [''tmp'', ''labels'', ''image2.txt'']
     = Opened [''0 0.4 0.6 0.2 0.4''] False"
  "open_scan go_lib test_fs [''tmp'', ''labels'', ''image3.txt'']
     = Opened [''1 0.7 0.3 0.3 0.2'', ''0 0.1 0.9 0.1 0.1''] False"
  by (simp_all add: open_scan_def lookup_def test_fs_def go_lib_def go_scan_lines_def LF_def
      dropCR_def CR_def)

text \<open>
  The statistics that \<^verbatim>\<open>TestValidateLabels\<close> expects for the fixture: three files,
  five annotations, three files with annotations.
\<close>

lemma ValidateLabels_test_fixture:
  "ValidateLabels go_lib (open_scan go_lib test_fs) test_pairs
     = Inr \<lparr>TotalFiles = 3, TotalAnnotations = 5, FilesWithAnnotations = 3,
            EmptyFiles = 0, InvalidLines = 0\<rparr>"
  by (simp add: ValidateLabels_def test_pairs_def validate_file_def test_label_files test_lines
      Let_def)


subsection \<open>Unreadable label files\<close>

text \<open>
  What a record adds to the invalid-line counter does not depend on the value the
  counter has, and no record changes \<^verbatim>\<open>TotalFiles\<close>.
\<close>

lemma validate_lines_shift:
  "foldl (validate_line L) (bad + k, v) lines
     = (fst (foldl (validate_line L) (bad, v) lines) + k, snd (foldl (validate_line L) (bad, v) lines))"
proof (induction lines arbitrary: bad v)
  case Nil
  then show ?case by simp
next
  case (Cons l ls)
  obtain b1 v1 where st: "validate_line L (bad, v) l = (b1, v1)"
    by (cases "validate_line L (bad, v) l")
  have sh: "validate_line L (bad + k, v) l = (b1 + k, v1)"
    using st by (auto simp: validate_line_eq split: if_splits)
  show ?case unfolding foldl_Cons st sh by (rule Cons.IH)
qed

lemma validate_file_TotalFiles:
  "validate_file L opener (st\<lparr>TotalFiles := x\<rparr>) p = (validate_file L opener st p)\<lparr>TotalFiles := x\<rparr>"
  by (simp add: validate_file_def Let_def split: file_result.splits prod.splits)

lemma validate_file_shift:
  "validate_file L opener (st\<lparr>InvalidLines := InvalidLines st + k\<rparr>) p
     = (validate_file L opener st p)\<lparr>InvalidLines := InvalidLines (validate_file L opener st p) + k\<rparr>"
proof (cases "opener (LabelPath p)")
  case OpenError
  then show ?thesis by (simp add: validate_file_def)
next
  case (Opened lines scan_err)
  obtain b v where f: "foldl (validate_line L) (InvalidLines st, 0) lines = (b, v)"
    by (cases "foldl (validate_line L) (InvalidLines st, 0) lines")
  have "foldl (validate_line L) (InvalidLines st + k, 0) lines = (b + k, v)"
    by (simp add: validate_lines_shift f)
  then show ?thesis using f by (simp add: validate_file_def Opened Let_def)
qed

lemma validate_files_TotalFiles:
  "foldl (validate_file L opener) (st\<lparr>TotalFiles := x\<rparr>) ps
     = (foldl (validate_file L opener) st ps)\<lparr>TotalFiles := x\<rparr>"
  by (induction ps arbitrary: st) (simp_all add: validate_file_TotalFiles)

lemma validate_files_shift:
  "foldl (validate_file L opener) (st\<lparr>InvalidLines := InvalidLines st + k\<rparr>) ps
     = (foldl (validate_file L opener) st ps)
         \<lparr>InvalidLines := InvalidLines (foldl (validate_file L opener) st ps) + k\<rparr>"
proof (induction ps arbitrary: st)
  case Nil
  then show ?case by simp
next
  case (Cons p ps)
  show ?case unfolding foldl_Cons validate_file_shift Cons.IH ..
qed

text \<open>
  C8. A record whose label file fails to open adds exactly one to the invalid-line
  counter and changes nothing else, and \<^verbatim>\<open>ValidateLabels\<close> goes on with the records
  that follow: wherever the record stands in the list, \<^verbatim>\<open>ValidateLabels\<close> returns
  the statistics that it returns for the list without the record, with one more
  file and one more invalid line. It returns statistics, never an error.
\<close>

theorem ValidateLabels_open_failure:
  assumes "opener (LabelPath p) = OpenError"
  shows "validate_file L opener s p = s\<lparr>InvalidLines := InvalidLines s + 1\<rparr>
       \<and> (\<exists>st. ValidateLabels L opener (before @ rest) = Inr st
              \<and> ValidateLabels L opener (before @ p # rest)
                  = Inr (st\<lparr>TotalFiles := TotalFiles st + 1, InvalidLines := InvalidLines st + 1\<rparr>))"
proof
  show step: "validate_file L opener s p = s\<lparr>InvalidLines := InvalidLines s + 1\<rparr>" for s
    using assms by (simp add: validate_file_def)
  define st0 where "st0 = \<lparr>TotalFiles = length (before @ rest), TotalAnnotations = 0,
     FilesWithAnnotations = 0, EmptyFiles = 0, InvalidLines = 0\<rparr>"
  define st where "st = foldl (validate_file L opener) st0 (before @ rest)"
  have a: "ValidateLabels L opener (before @ rest) = Inr st"
    by (simp add: ValidateLabels_def st_def st0_def)
  have tf: "TotalFiles st = length (before @ rest)"
    using validate_files_counts[of L opener st0 "before @ rest"] by (simp add: st_def st0_def)
  have init: "\<lparr>TotalFiles = length (before @ p # rest), TotalAnnotations = 0,
     FilesWithAnnotations = 0, EmptyFiles = 0, InvalidLines = 0\<rparr>
       = st0\<lparr>TotalFiles := length (before @ rest) + 1\<rparr>"
    by (simp add: st0_def)
  have "foldl (validate_file L opener) st0 (before @ p # rest)
      = foldl (validate_file L opener)
          ((foldl (validate_file L opener) st0 before)
             \<lparr>InvalidLines := InvalidLines (foldl (validate_file L opener) st0 before) + 1\<rparr>) rest"
    by (simp add: step)
  also have "\<dots> = st\<lparr>InvalidLines := InvalidLines st + 1\<rparr>"
    unfolding validate_files_shift by (simp add: st_def)
  finally have run: "foldl (validate_file L opener) st0 (before @ p # rest)
      = st\<lparr>InvalidLines := InvalidLines st + 1\<rparr>" .
  have "ValidateLabels L opener (before @ p # rest)
      = Inr ((foldl (validate_file L opener) st0 (before @ p # rest))
               \<lparr>TotalFiles := length (before @ rest) + 1\<rparr>)"
    unfolding ValidateLabels_def init validate_files_TotalFiles ..
  also have "\<dots> = Inr (st\<lparr>TotalFiles := TotalFiles st + 1, InvalidLines := InvalidLines st + 1\<rparr>)"
    unfolding run tf by simp
  finally show "\<exists>st. ValidateLabels L opener (before @ rest) = Inr st
              \<and> ValidateLabels L opener (before @ p # rest)
                  = Inr (st\<lparr>TotalFiles := TotalFiles st + 1, InvalidLines := InvalidLines st + 1\<rparr>)"
    using a by blast
qed

theorem ValidateLabels_open_failure_witness:
  "open_scan go_lib test_fs [''tmp'', ''labels'', ''missing.txt''] = OpenError
   \<and> ValidateLabels go_lib (open_scan go_lib test_fs)
        [\<lparr>ImagePath = [''tmp'', ''images'', ''image1.jpg''],
          LabelPath = [''tmp'', ''labels'', ''image1.txt'']\<rparr>,
         \<lparr>ImagePath = [''tmp'', ''images'', ''missing.jpg''],
          LabelPath = [''tmp'', ''labels'', ''missing.txt'']\<rparr>,
         \<lparr>ImagePath = [''tmp'', ''images'', ''image2.png''],
          LabelPath = [''tmp'', ''labels'', ''image2.txt'']\<rparr>,
         \<lparr>ImagePath = [''tmp'', ''images'', ''image3.jpeg''],
          LabelPath = [''tmp'', ''labels'', ''image3.txt'']\<rparr>]
      = Inr \<lparr>TotalFiles = 4, TotalAnnotations = 5, FilesWithAnnotations = 3,
             EmptyFiles = 0, InvalidLines = 1\<rparr>
   \<and> ValidateLabels go_lib (open_scan go_lib test_fs)
        [\<lparr>ImagePath = [''tmp'', ''images'', ''missing.jpg''],
          LabelPath = [''tmp'', ''labels'', ''missing.txt'']\<rparr>,
         \<lparr>ImagePath = [''tmp'', ''images'', ''missing.jpg''],
          LabelPath = [''tmp'', ''labels'', ''missing.txt'']\<rparr>]
      = Inr \<lparr>TotalFiles = 2, TotalAnnotations = 0, FilesWithAnnotations = 0,
             EmptyFiles = 0, InvalidLines = 2\<rparr>"
proof -
  define p where "p = \<lparr>ImagePath = [''tmp'', ''images'', ''missing.jpg''],
          LabelPath = [''tmp'', ''labels'', ''missing.txt'']\<rparr>"
  define op where "op = open_scan go_lib test_fs"
  have miss: "op (LabelPath p) = OpenError"
    by (simp add: p_def op_def open_scan_def lookup_def test_fs_def)
  have fixture: "ValidateLabels go_lib op ([hd test_pairs] @ tl test_pairs)
     = Inr \<lparr>TotalFiles = 3, TotalAnnotations = 5, FilesWithAnnotations = 3,
            EmptyFiles = 0, InvalidLines = 0\<rparr>"
    using ValidateLabels_test_fixture by (simp add: test_pairs_def op_def)
  have none: "ValidateLabels go_lib op ([] @ [])
     = Inr \<lparr>TotalFiles = 0, TotalAnnotations = 0, FilesWithAnnotations = 0,
            EmptyFiles = 0, InvalidLines = 0\<rparr>"
    by (simp add: ValidateLabels_def)
  have a: "ValidateLabels go_lib op ([hd test_pairs] @ p # tl test_pairs)
     = Inr \<lparr>TotalFiles = 4, TotalAnnotations = 5, FilesWithAnnotations = 3,
            EmptyFiles = 0, InvalidLines = 1\<rparr>"
    using ValidateLabels_open_failure[where opener = op and p = p and L = go_lib
        and before = "[hd test_pairs]" and rest = "tl test_pairs", OF miss] fixture
    by auto
  have one: "ValidateLabels go_lib op ([] @ [p])
     = Inr \<lparr>TotalFiles = 1, TotalAnnotations = 0, FilesWithAnnotations = 0,
            EmptyFiles = 0, InvalidLines = 1\<rparr>"
    using ValidateLabels_open_failure[where opener = op and p = p and L = go_lib
        and before = "[]" and rest = "[]", OF miss] none
    by auto
  have two: "ValidateLabels go_lib op ([] @ p # [p])
     = Inr \<lparr>TotalFiles = 2, TotalAnnotations = 0, FilesWithAnnotations = 0,
            EmptyFiles = 0, InvalidLines = 2\<rparr>"
    using ValidateLabels_open_failure[where opener = op and p = p and L = go_lib
        and before = "[]" and rest = "[p]", OF miss] one
    by auto
  show ?thesis using miss a two by (simp add: p_def op_def test_pairs_def)
qed


subsection \<open>The pair matcher\<close>

lemma visit_eq:
  "visit fs ldir pairs p =
     (if (\<exists>bytes. lookup fs p = Some (File bytes))
         \<and> ToLower (Ext (Base p)) \<in> set imageExtensions
         \<and> lookup fs (label_path_for ldir p) \<noteq> None
      then pairs @ [\<lparr>ImagePath = p, LabelPath = label_path_for ldir p\<rparr>]
      else pairs)"
  by (auto simp: visit_def label_path_for_def Let_def split: option.splits node.splits)

lemma foldl_visit_eq:
  "foldl (visit fs ldir) acc ps =
     acc @ map (\<lambda>p. \<lparr>ImagePath = p, LabelPath = label_path_for ldir p\<rparr>)
             (filter (\<lambda>p. (\<exists>bytes. lookup fs p = Some (File bytes))
                          \<and> ToLower (Ext (Base p)) \<in> set imageExtensions
                          \<and> lookup fs (label_path_for ldir p) \<noteq> None) ps)"
proof (induction ps arbitrary: acc)
  case Nil
  then show ?case by simp
next
  case (Cons p ps)
  show ?case unfolding foldl_Cons Cons.IH by (simp add: visit_eq)
qed

lemma Ext_photo: "Ext ''photo.JPG'' = ''.JPG''"
  by (simp add: Ext_def)

lemma ToLower_JPG: "ToLower ''.JPG'' = ''.jpg''"
  by (simp add: ToLower_def to_lower_char_def)

lemma walk_upper: "walk_paths upper_fs [''images''] = [[''images''], [''images'', ''photo.JPG'']]"
  by (simp add: walk_paths_def upper_fs_def descends_def lookup_def)


text \<open>
  The extension of a name is a suffix of the name, so a lower-cased extension that
  differs from it is not, and \<^verbatim>\<open>TrimSuffix\<close> then strips nothing.
\<close>

lemma Ext_suffix: "suffix (Ext name) name"
proof (cases "CHR ''.'' \<in> set name")
  case False
  then show ?thesis by (simp add: Ext_def)
next
  case True
  define tw where "tw = takeWhile (\<lambda>c. c \<noteq> CHR ''.'') (rev name)"
  define dw where "dw = dropWhile (\<lambda>c. c \<noteq> CHR ''.'') (rev name)"
  have split: "rev name = tw @ dw" by (simp add: tw_def dw_def)
  have "dw \<noteq> []" using True by (auto simp: dw_def)
  moreover from this have "hd dw = CHR ''.''"
    using hd_dropWhile[of "\<lambda>c. c \<noteq> CHR ''.''" "rev name"] by (simp add: dw_def)
  ultimately have dw: "dw = CHR ''.'' # tl dw" by (cases dw) simp_all
  have "name = rev (tl dw) @ CHR ''.'' # rev tw"
  proof -
    have "name = rev (rev name)" by simp
    also have "\<dots> = rev (tw @ CHR ''.'' # tl dw)" using split dw by simp
    finally show ?thesis by simp
  qed
  moreover have "Ext name = CHR ''.'' # rev tw" using True by (simp add: Ext_def tw_def)
  ultimately show ?thesis by (metis suffixI)
qed

lemma suffix_same_length:
  assumes "suffix a s" "suffix b s" "length a = length b"
  shows "a = b"
  using assms by (auto simp: suffix_def)

lemma TrimSuffix_lowered_Ext:
  assumes "ToLower (Ext name) \<noteq> Ext name"
  shows "TrimSuffix name (ToLower (Ext name)) = name"
proof -
  have "\<not> suffix (ToLower (Ext name)) name"
  proof
    assume "suffix (ToLower (Ext name)) name"
    then have "ToLower (Ext name) = Ext name"
      using Ext_suffix by (rule suffix_same_length) (simp add: ToLower_def)
    then show False using assms by simp
  qed
  then show ?thesis by (simp add: TrimSuffix_def)
qed

text \<open>
  An image whose extension is not one of the recognized extensions as it is written
  is not in the record set, unless the labels directory holds a file named after the
  whole image name, extension included.
\<close>

lemma GetImageLabelPairs_upper_case_skipped:
  assumes res: "GetImageLabelPairs fs c = Inr pairs"
    and ext: "Ext (Base p) \<notin> set imageExtensions"
    and nolabel: "lookup fs (labelsDir c @ [Base p @ ''.txt'']) = None"
  shows "\<forall>pair \<in> set pairs. ImagePath pair \<noteq> p"
proof
  fix pair assume mem: "pair \<in> set pairs"
  have pairs: "pairs = map (\<lambda>p. \<lparr>ImagePath = p, LabelPath = label_path_for (labelsDir c) p\<rparr>)
             (filter (\<lambda>p. (\<exists>bytes. lookup fs p = Some (File bytes))
                          \<and> ToLower (Ext (Base p)) \<in> set imageExtensions
                          \<and> lookup fs (label_path_for (labelsDir c) p) \<noteq> None)
                (walk_paths fs (imagesDir c)))"
    using res by (simp add: GetImageLabelPairs_def foldl_visit_eq split: if_splits)
  show "ImagePath pair \<noteq> p"
  proof
    assume eq: "ImagePath pair = p"
    from mem eq have low: "ToLower (Ext (Base p)) \<in> set imageExtensions"
      and lab: "lookup fs (label_path_for (labelsDir c) p) \<noteq> None"
      unfolding pairs by auto
    have "ToLower (Ext (Base p)) \<noteq> Ext (Base p)" using low ext by auto
    then have "TrimSuffix (Base p) (ToLower (Ext (Base p))) = Base p"
      by (rule TrimSuffix_lowered_Ext)
    then have "label_path_for (labelsDir c) p = labelsDir c @ [Base p @ ''.txt'']"
      by (simp add: label_path_for_def)
    then show False using lab nolabel by simp
  qed
qed

text \<open>
  With the label named after the stem, \<^verbatim>\<open>photo.txt\<close>, the image \<^verbatim>\<open>photo.JPG\<close> is not
  in the record set.
\<close>

lemma walk_photo: "walk_paths photo_fs [''images''] = [[''images''], [''images'', ''photo.JPG'']]"
  by (simp add: walk_paths_def photo_fs_def descends_def lookup_def)

lemma photo_JPG_with_photo_txt: "GetImageLabelPairs photo_fs upper_config = Inr []"
proof -
  have look: "lookup photo_fs [''images''] = Some Dir"
    "lookup photo_fs [''images'', ''photo.JPG''] = Some (File ''fake image data'')"
    "lookup photo_fs [''labels'', ''photo.JPG.txt''] = None"
    by (simp_all add: lookup_def photo_fs_def)
  have ts: "TrimSuffix ''photo.JPG'' ''.jpg'' = ''photo.JPG''"
    by (simp add: TrimSuffix_def suffix_def)
  show ?thesis
    by (simp add: GetImageLabelPairs_def imagesDir_def labelsDir_def upper_config_def walk_photo
        visit_def look Base_def Ext_photo ToLower_JPG imageExtensions_def ts Let_def)
qed


text \<open>The records that pair matching returns are distinct.\<close>

lemma GetImageLabelPairs_distinct:
  assumes "GetImageLabelPairs fs c = Inr pairs"
  shows "distinct pairs"
proof -
  have pairs: "pairs = map (\<lambda>p. \<lparr>ImagePath = p, LabelPath = label_path_for (labelsDir c) p\<rparr>)
             (filter (\<lambda>p. (\<exists>bytes. lookup fs p = Some (File bytes))
                          \<and> ToLower (Ext (Base p)) \<in> set imageExtensions
                          \<and> lookup fs (label_path_for (labelsDir c) p) \<noteq> None)
                (walk_paths fs (imagesDir c)))"
    using assms by (simp add: GetImageLabelPairs_def foldl_visit_eq split: if_splits)
  have "distinct (walk_paths fs (imagesDir c))" by (simp add: walk_paths_def)
  then show ?thesis unfolding pairs by (simp add: distinct_map inj_on_def)
qed


subsection \<open>An empty record set\<close>

text \<open>
  C7. When the source structure is valid, the class list loads and pair matching
  finds no pair, \<^verbatim>\<open>Convert\<close> fails with the empty-dataset error and the file system
  is the one it started with: no directory has been created and no file written.
\<close>

theorem Convert_empty_dataset:
  assumes "ValidateSourceStructure fs c = None"
    and "LoadClasses L fs c = Inr classes"
    and "GetImageLabelPairs fs c = Inr []"
  shows "Convert L now cwd c (g, fs) = (Failed NoValidPairs, g, fs)"
  using assms by (simp add: Convert_def)

theorem Convert_empty_dataset_witness:
  "ValidateSourceStructure empty_fs upper_config = None
   \<and> LoadClasses go_lib empty_fs upper_config = Inr [''book'']
   \<and> GetImageLabelPairs empty_fs upper_config = Inr []
   \<and> Convert go_lib ''2025-09-22T10:00:00Z'' [''home''] upper_config (0, empty_fs)
       = (Failed NoValidPairs, 0, empty_fs)"
proof -
  have v: "ValidateSourceStructure empty_fs upper_config = None"
    by (simp add: ValidateSourceStructure_def imagesDir_def labelsDir_def classesPath_def
        upper_config_def lookup_def empty_fs_def)
  have l: "LoadClasses go_lib empty_fs upper_config = Inr [''book'']"
    by (simp add: LoadClasses_def classesPath_def upper_config_def open_scan_def lookup_def
        empty_fs_def go_lib_def go_scan_lines_def LF_def dropCR_def CR_def TrimSpace_def is_space_def)
  have w: "walk_paths empty_fs [''images''] = [[''images'']]"
    by (simp add: walk_paths_def empty_fs_def descends_def lookup_def)
  have look: "lookup empty_fs [''images''] = Some Dir"
    by (simp add: lookup_def empty_fs_def)
  have p: "GetImageLabelPairs empty_fs upper_config = Inr []"
    by (simp add: GetImageLabelPairs_def imagesDir_def labelsDir_def upper_config_def w visit_def
        look)
  from Convert_empty_dataset[OF v l p] v l p show ?thesis by blast
qed


text \<open>Conversely, the empty-dataset error arises at this point only.\<close>

lemma MkdirAll_each_error:
  "MkdirAll_each fs ds = (Some e, fs') \<Longrightarrow> e \<noteq> NoValidPairs"
  by (induction ds arbitrary: fs) (auto split: option.splits)

lemma CopyFiles_loop_error:
  "CopyFiles_loop idir ldir fs ps = (Some e, fs') \<Longrightarrow> e \<noteq> NoValidPairs"
  by (induction ps arbitrary: fs) (auto split: prod.splits bool.splits)

lemma materialize_error:
  "materialize L now cwd c classes tr va fs = (Some e, fs') \<Longrightarrow> e \<noteq> NoValidPairs"
  by (auto simp: materialize_def CreateYOLOStructure_def CopyFiles_def CreateYAMLConfig_def Let_def
      dest: MkdirAll_each_error CopyFiles_loop_error split: prod.splits option.splits)

lemma ValidateSourceStructure_error:
  "ValidateSourceStructure fs c = Some e \<Longrightarrow> e \<noteq> NoValidPairs"
  by (auto simp: ValidateSourceStructure_def split: option.splits)

lemma LoadClasses_error: "LoadClasses L fs c = Inl e \<Longrightarrow> e \<noteq> NoValidPairs"
  by (auto simp: LoadClasses_def split: file_result.splits if_splits)

lemma GetImageLabelPairs_error: "GetImageLabelPairs fs c = Inl e \<Longrightarrow> e \<noteq> NoValidPairs"
  by (auto simp: GetImageLabelPairs_def split: if_splits)

lemma Convert_NoValidPairs_only_before_output:
  assumes "fst (Convert L now cwd c (g, fs)) = Failed NoValidPairs"
  shows "Convert L now cwd c (g, fs) = (Failed NoValidPairs, g, fs)
       \<and> GetImageLabelPairs fs c = Inr []"
proof (cases "ValidateSourceStructure fs c")
  case (Some e)
  then show ?thesis using assms ValidateSourceStructure_error[OF Some] by (simp add: Convert_def)
next
  case None
  note v = None
  show ?thesis
  proof (cases "LoadClasses L fs c")
    case (Inl e)
    then show ?thesis using assms v LoadClasses_error[OF Inl] by (simp add: Convert_def)
  next
    case (Inr classes)
    note l = Inr
    show ?thesis
    proof (cases "GetImageLabelPairs fs c")
      case (Inl e)
      then show ?thesis using assms v l GetImageLabelPairs_error[OF Inl] by (simp add: Convert_def)
    next
      case (Inr pairs)
      note p = Inr
      show ?thesis
      proof (cases "pairs = []")
        case True
        then show ?thesis using v l p by (simp add: Convert_def)
      next
        case False
        show ?thesis
        proof (cases "SplitDataset L c g pairs")
          case (Inl f)
          then show ?thesis using assms v l p False by (simp add: Convert_def ValidateLabels_def)
        next
          case (Inr r)
          obtain split g' where r: "r = (split, g')" by (cases r)
          obtain eo fs' where m: "materialize L now cwd c classes (fst split) (snd split) fs = (eo, fs')"
            by (cases "materialize L now cwd c classes (fst split) (snd split) fs")
          show ?thesis
          proof (cases eo)
            case None
            then show ?thesis using assms v l p False Inr r m by (simp add: Convert_def ValidateLabels_def)
          next
            case (Some e)
            then have "e \<noteq> NoValidPairs" using m materialize_error by blast
            then show ?thesis using assms v l p False Inr r m Some
              by (simp add: Convert_def ValidateLabels_def)
          qed
        qed
      qed
    qed
  qed
qed



subsection \<open>Running the pipeline again\<close>

lemma lookup_write:
  "p \<noteq> [] \<Longrightarrow> lookup (write_node p n fs) q = (if q = p then Some n else lookup fs q)"
  by (auto simp: lookup_def write_node_def)

lemma ahead_refl: "ahead c fs fs"
  by (simp add: ahead_def persists_def src_eq_def)

lemma ahead_trans: "ahead c a b \<Longrightarrow> ahead c b d \<Longrightarrow> ahead c a d"
  unfolding ahead_def persists_def src_eq_def by (metis (no_types, lifting))

lemma prefix_append_cases:
  "prefix r (a @ ys) \<Longrightarrow> prefix r a \<or> strict_prefix a r"
  by (metis prefix_append prefix_order.less_le prefixI)

lemma separate_out:
  assumes "separate c" "prefix p (OutputDir c @ ys)"
  shows "\<not> src_path c p"
proof
  assume "src_path c p"
  then obtain x where r: "prefix (SourceDir c @ [x]) p"
    and x: "\<not> prefix (SourceDir c @ [x]) (OutputDir c)"
    using assms(1) by (auto simp: src_path_def separate_def imagesDir_def labelsDir_def classesPath_def)
  have "prefix (SourceDir c @ [x]) (OutputDir c @ ys)" using r assms(2) by (rule prefix_order.trans)
  then have "strict_prefix (OutputDir c) (SourceDir c @ [x])"
    using x prefix_append_cases by blast
  then have "prefix (OutputDir c) (SourceDir c)"
    by (metis prefix_snoc strict_prefix_def)
  then show False using assms(1) by (simp add: separate_def)
qed

lemma MkdirAll_effect:
  "MkdirAll fs d = Some fs' \<Longrightarrow>
     lookup fs' d = Some Dir
     \<and> (\<forall>p. lookup fs' p = lookup fs p
            \<or> (lookup fs p = None \<and> lookup fs' p = Some Dir \<and> prefix p d))"
proof (induction fs d arbitrary: fs' rule: MkdirAll.induct)
  case (1 fs d)
  show ?case
  proof (cases "lookup fs d")
    case None
    then have ne: "d \<noteq> []" by (auto simp: lookup_def)
    from "1.prems" None obtain fsA where
      a: "MkdirAll fs (butlast d) = Some fsA" and fs': "fs' = write_node d Dir fsA"
      by (subst (asm) MkdirAll.simps) (auto split: option.splits)
    have ih: "\<forall>p. lookup fsA p = lookup fs p
            \<or> (lookup fs p = None \<and> lookup fsA p = Some Dir \<and> prefix p (butlast d))"
      using "1.IH"[OF None a] by blast
    have pb: "\<And>p. prefix p (butlast d) \<Longrightarrow> prefix p d"
      by (metis prefix_order.trans prefixeq_butlast)
    show ?thesis
    proof (intro conjI allI)
      show "lookup fs' d = Some Dir" by (simp add: fs' lookup_write ne)
    next
      fix p
      show "lookup fs' p = lookup fs p \<or> lookup fs p = None \<and> lookup fs' p = Some Dir \<and> prefix p d"
      proof (cases "p = d")
        case True
        then show ?thesis using None by (simp add: fs' lookup_write ne)
      next
        case False
        then have "lookup fs' p = lookup fsA p" by (simp add: fs' lookup_write ne)
        then show ?thesis using ih pb by metis
      qed
    qed
  next
    case (Some n)
    then show ?thesis using "1.prems"
      by (subst (asm) MkdirAll.simps) (auto split: node.splits)
  qed
qed

lemma MkdirAll_ahead:
  assumes "MkdirAll fs (OutputDir c @ ys) = Some fs'" "separate c"
  shows "ahead c fs fs'"
proof -
  note e = MkdirAll_effect[OF assms(1)]
  have "persists fs fs'" unfolding persists_def using e by (metis option.distinct(1))
  moreover have "src_eq c fs fs'"
    unfolding src_eq_def using e separate_out[OF assms(2)] by metis
  ultimately show ?thesis by (simp add: ahead_def)
qed

lemma MkdirAll_rerun:
  assumes ok: "MkdirAll s1 d = Some s1'"
    and rel: "rerun_rel fs1 s1 s2"
    and ah: "persists s1' fs1"
  shows "MkdirAll s2 d = Some s2 \<and> rerun_rel fs1 s1' s2"
proof -
  note e = MkdirAll_effect[OF ok]
  have dir: "\<And>q. lookup s1' q = Some Dir \<Longrightarrow> lookup s2 q = Some Dir"
    using ah rel by (simp add: persists_def rerun_rel_def)
  have "lookup s2 d = Some Dir" using e dir by blast
  then have 1: "MkdirAll s2 d = Some s2" by (subst MkdirAll.simps) simp
  have "\<forall>p. lookup s2 p = lookup s1' p \<or> lookup s2 p = lookup fs1 p"
  proof
    fix p
    from rel have "lookup s2 p = lookup s1 p \<or> lookup s2 p = lookup fs1 p"
      by (simp add: rerun_rel_def)
    then show "lookup s2 p = lookup s1' p \<or> lookup s2 p = lookup fs1 p"
      using e dir by metis
  qed
  then have "rerun_rel fs1 s1' s2" using rel by (simp add: rerun_rel_def)
  then show ?thesis using 1 by simp
qed

lemma create_file_eq:
  "create_file fs p =
     (if p \<noteq> [] \<and> lookup fs (butlast p) = Some Dir \<and> lookup fs p \<noteq> Some Dir
      then Some (write_node p (File []) fs) else None)"
  by (auto simp: create_file_def split: option.splits node.splits)

lemma copyFile_True:
  "copyFile fs src dst = (True, fs') \<longleftrightarrow>
     (\<exists>bytes. lookup fs src \<noteq> None \<and> dst \<noteq> [] \<and> lookup fs (butlast dst) = Some Dir
        \<and> lookup fs dst \<noteq> Some Dir
        \<and> lookup (write_node dst (File []) fs) src = Some (File bytes)
        \<and> fs' = write_node dst (File bytes) (write_node dst (File []) fs))"
  by (auto simp: copyFile_def create_file_eq split: option.splits node.splits)

lemma copyFile_ahead:
  assumes "copyFile fs src dst = (True, fs')" "\<not> src_path c dst"
  shows "ahead c fs fs'"
proof -
  from assms(1) obtain bytes where
    ne: "dst \<noteq> []" and nd: "lookup fs dst \<noteq> Some Dir"
    and fs': "fs' = write_node dst (File bytes) (write_node dst (File []) fs)"
    by (auto simp: copyFile_True)
  have l: "\<And>q. lookup fs' q = (if q = dst then Some (File bytes) else lookup fs q)"
    by (simp add: fs' lookup_write ne)
  have "persists fs fs'" unfolding persists_def using nd by (auto simp: l)
  moreover have "src_eq c fs fs'" unfolding src_eq_def using assms(2) by (auto simp: l)
  ultimately show ?thesis by (simp add: ahead_def)
qed

lemma butlast_neq: "dst \<noteq> [] \<Longrightarrow> butlast dst \<noteq> dst"
  by (metis length_butlast diff_less length_greater_0_conv less_numeral_extra(1) nat_neq_iff)

lemma copyFile_rerun:
  assumes ok: "copyFile s1 src dst = (True, s1')"
    and rel: "rerun_rel fs1 s1 s2"
    and ah: "ahead c s1' fs1"
    and src: "src_path c src" and dst: "\<not> src_path c dst"
  shows "\<exists>s2'. copyFile s2 src dst = (True, s2') \<and> rerun_rel fs1 s1' s2'"
proof -
  from ok obtain bytes where
    ne: "dst \<noteq> []" and par: "lookup s1 (butlast dst) = Some Dir"
    and nd: "lookup s1 dst \<noteq> Some Dir"
    and rd: "lookup (write_node dst (File []) s1) src = Some (File bytes)"
    and s1': "s1' = write_node dst (File bytes) (write_node dst (File []) s1)"
    by (auto simp: copyFile_True)
  have sd: "src \<noteq> dst" using src dst by auto
  have l1: "\<And>q. lookup s1' q = (if q = dst then Some (File bytes) else lookup s1 q)"
    by (simp add: s1' lookup_write ne)
  have rd1: "lookup s1 src = Some (File bytes)" using rd sd by (simp add: lookup_write ne)
  have pers: "persists s1' fs1" and seq: "src_eq c s1' fs1" using ah by (simp_all add: ahead_def)
  have r1: "\<And>p. lookup s2 p = lookup s1 p \<or> lookup s2 p = lookup fs1 p"
    and r2: "\<And>q. lookup fs1 q = Some Dir \<Longrightarrow> lookup s2 q = Some Dir"
    using rel by (simp_all add: rerun_rel_def)
  have "lookup fs1 src = lookup s1' src" using seq src by (simp add: src_eq_def)
  then have "lookup fs1 src = Some (File bytes)" using rd1 sd by (simp add: l1)
  then have rd2: "lookup s2 src = Some (File bytes)" using r1[of src] rd1 by auto
  have "lookup s1' (butlast dst) = Some Dir" using par butlast_neq[OF ne] by (simp add: l1)
  then have "lookup fs1 (butlast dst) = Some Dir" using pers by (simp add: persists_def)
  then have par2: "lookup s2 (butlast dst) = Some Dir" by (rule r2)
  have "lookup s1' dst = Some (File bytes)" by (simp add: l1)
  then obtain b' where f1: "lookup fs1 dst = Some (File b')"
    using pers unfolding persists_def by blast
  then have nd2: "lookup s2 dst \<noteq> Some Dir" using r1[of dst] nd by auto
  define s2' where "s2' = write_node dst (File bytes) (write_node dst (File []) s2)"
  have "lookup (write_node dst (File []) s2) src = Some (File bytes)"
    using rd2 sd by (simp add: lookup_write ne)
  then have c2: "copyFile s2 src dst = (True, s2')"
    using rd2 ne par2 nd2 by (simp add: copyFile_True s2'_def)
  have l2: "\<And>q. lookup s2' q = (if q = dst then Some (File bytes) else lookup s2 q)"
    by (simp add: s2'_def lookup_write ne)
  have "rerun_rel fs1 s1' s2'"
    unfolding rerun_rel_def using r1 r2 f1 by (auto simp: l1 l2)
  then show ?thesis using c2 by blast
qed

lemma MkdirAll_each_ahead:
  assumes "MkdirAll_each fs ds = (None, fs')" "separate c"
    "\<forall>d \<in> set ds. \<exists>ys. d = OutputDir c @ ys"
  shows "ahead c fs fs'"
  using assms
proof (induction ds arbitrary: fs)
  case Nil
  then show ?case by (simp add: ahead_refl)
next
  case (Cons d ds)
  from Cons.prems(1) obtain fsA where a: "MkdirAll fs d = Some fsA"
    and b: "MkdirAll_each fsA ds = (None, fs')"
    by (auto split: option.splits)
  obtain ys where "d = OutputDir c @ ys" using Cons.prems(3) by auto
  then have "ahead c fs fsA" using a Cons.prems(2) MkdirAll_ahead by blast
  moreover have "ahead c fsA fs'" using Cons.IH[OF b Cons.prems(2)] Cons.prems(3) by simp
  ultimately show ?case by (rule ahead_trans)
qed

lemma MkdirAll_each_rerun:
  assumes "MkdirAll_each s1 ds = (None, s1')" "rerun_rel fs1 s1 s2" "ahead c s1' fs1"
    "separate c" "\<forall>d \<in> set ds. \<exists>ys. d = OutputDir c @ ys"
  shows "\<exists>s2'. MkdirAll_each s2 ds = (None, s2') \<and> rerun_rel fs1 s1' s2'"
  using assms
proof (induction ds arbitrary: s1 s2)
  case Nil
  then show ?case by simp
next
  case (Cons d ds)
  from Cons.prems(1) obtain sA where a: "MkdirAll s1 d = Some sA"
    and b: "MkdirAll_each sA ds = (None, s1')"
    by (auto split: option.splits)
  have "ahead c sA s1'" using MkdirAll_each_ahead[OF b Cons.prems(4)] Cons.prems(5) by simp
  then have "ahead c sA fs1" using Cons.prems(3) by (rule ahead_trans)
  then have "persists sA fs1" by (simp add: ahead_def)
  from MkdirAll_rerun[OF a Cons.prems(2) this]
  have m2: "MkdirAll s2 d = Some s2" and rel: "rerun_rel fs1 sA s2" by simp_all
  from Cons.IH[OF b rel Cons.prems(3,4)] Cons.prems(5)
  obtain s2' where "MkdirAll_each s2 ds = (None, s2')" "rerun_rel fs1 s1' s2'" by auto
  then show ?case using m2 by simp
qed

lemma CopyFiles_loop_step:
  "CopyFiles_loop idir ldir fs (pr # rest) = (None, fs') \<longleftrightarrow>
     (\<exists>fsA fsB. copyFile fs (ImagePath pr) (idir @ [Base (ImagePath pr)]) = (True, fsA)
        \<and> copyFile fsA (LabelPath pr) (ldir @ [Base (LabelPath pr)]) = (True, fsB)
        \<and> CopyFiles_loop idir ldir fsB rest = (None, fs'))"
  by (auto split: prod.splits bool.splits)

lemma CopyFiles_loop_ahead:
  assumes "CopyFiles_loop (OutputDir c @ xs) (OutputDir c @ ys) fs ps = (None, fs')" "separate c"
  shows "ahead c fs fs'"
  using assms
proof (induction ps arbitrary: fs)
  case Nil
  then show ?case by (simp add: ahead_refl)
next
  case (Cons pr rest)
  from Cons.prems(1) obtain fsA fsB where
    a: "copyFile fs (ImagePath pr) ((OutputDir c @ xs) @ [Base (ImagePath pr)]) = (True, fsA)"
    and b: "copyFile fsA (LabelPath pr) ((OutputDir c @ ys) @ [Base (LabelPath pr)]) = (True, fsB)"
    and r: "CopyFiles_loop (OutputDir c @ xs) (OutputDir c @ ys) fsB rest = (None, fs')"
    unfolding CopyFiles_loop_step by blast
  have d1: "\<not> src_path c ((OutputDir c @ xs) @ [Base (ImagePath pr)])"
    and d2: "\<not> src_path c ((OutputDir c @ ys) @ [Base (LabelPath pr)])"
    using separate_out[OF Cons.prems(2)] by (metis append.assoc prefix_order.refl)+
  have "ahead c fs fsA" using a d1 by (rule copyFile_ahead)
  moreover have "ahead c fsA fsB" using b d2 by (rule copyFile_ahead)
  moreover have "ahead c fsB fs'" using Cons.IH[OF r Cons.prems(2)] .
  ultimately show ?case using ahead_trans by blast
qed

lemma CopyFiles_loop_rerun:
  assumes "CopyFiles_loop (OutputDir c @ xs) (OutputDir c @ ys) s1 ps = (None, s1')"
    "rerun_rel fs1 s1 s2" "ahead c s1' fs1" "separate c"
    "\<forall>pr \<in> set ps. src_path c (ImagePath pr) \<and> src_path c (LabelPath pr)"
  shows "\<exists>s2'. CopyFiles_loop (OutputDir c @ xs) (OutputDir c @ ys) s2 ps = (None, s2')
           \<and> rerun_rel fs1 s1' s2'"
  using assms
proof (induction ps arbitrary: s1 s2)
  case Nil
  then show ?case by simp
next
  case (Cons pr rest)
  from Cons.prems(1) obtain sA sB where
    a: "copyFile s1 (ImagePath pr) ((OutputDir c @ xs) @ [Base (ImagePath pr)]) = (True, sA)"
    and b: "copyFile sA (LabelPath pr) ((OutputDir c @ ys) @ [Base (LabelPath pr)]) = (True, sB)"
    and r: "CopyFiles_loop (OutputDir c @ xs) (OutputDir c @ ys) sB rest = (None, s1')"
    unfolding CopyFiles_loop_step by blast
  have d1: "\<not> src_path c ((OutputDir c @ xs) @ [Base (ImagePath pr)])"
    and d2: "\<not> src_path c ((OutputDir c @ ys) @ [Base (LabelPath pr)])"
    using separate_out[OF Cons.prems(4)] by (metis append.assoc prefix_order.refl)+
  have srcs: "src_path c (ImagePath pr)" "src_path c (LabelPath pr)" using Cons.prems(5) by simp_all
  have ahB: "ahead c sB fs1"
    using CopyFiles_loop_ahead[OF r Cons.prems(4)] Cons.prems(3) by (rule ahead_trans)
  have ahA: "ahead c sA fs1" using copyFile_ahead[OF b d2] ahB by (rule ahead_trans)
  from copyFile_rerun[OF a Cons.prems(2) ahA srcs(1) d1]
  obtain tA where a2: "copyFile s2 (ImagePath pr) ((OutputDir c @ xs) @ [Base (ImagePath pr)]) = (True, tA)"
    and relA: "rerun_rel fs1 sA tA" by blast
  from copyFile_rerun[OF b relA ahB srcs(2) d2]
  obtain tB where b2: "copyFile tA (LabelPath pr) ((OutputDir c @ ys) @ [Base (LabelPath pr)]) = (True, tB)"
    and relB: "rerun_rel fs1 sB tB" by blast
  from Cons.IH[OF r relB Cons.prems(3,4)] Cons.prems(5)
  obtain s2' where "CopyFiles_loop (OutputDir c @ xs) (OutputDir c @ ys) tB rest = (None, s2')"
    "rerun_rel fs1 s1' s2'" by auto
  then show ?case unfolding CopyFiles_loop_step using a2 b2 by blast
qed

lemma CreateYAMLConfig_None:
  "CreateYAMLConfig L now cwd c fs classes = (None, fs') \<longleftrightarrow>
     (\<exists>body. yaml_encode L (yamlConfig cwd c classes) = Some body
        \<and> lookup fs (OutputDir c) = Some Dir \<and> lookup fs (yamlPath c) \<noteq> Some Dir
        \<and> fs' = write_node (yamlPath c) (File (yaml_header now @ body))
                  (write_node (yamlPath c) (File (yaml_header now))
                    (write_node (yamlPath c) (File []) fs)))"
  by (auto simp: CreateYAMLConfig_def create_file_eq Let_def yamlPath_def yamlConfig_def
      split: option.splits)

lemma lookup_after_yaml:
  "lookup (write_node (yamlPath c) (File a)
            (write_node (yamlPath c) (File b) (write_node (yamlPath c) (File d) fs))) q
     = (if q = yamlPath c then Some (File a) else lookup fs q)"
  by (simp add: lookup_write yamlPath_def)

lemma CreateYAMLConfig_ahead:
  assumes "CreateYAMLConfig L now cwd c fs classes = (None, fs')" "separate c"
  shows "ahead c fs fs'"
proof -
  from assms(1) obtain body where nd: "lookup fs (yamlPath c) \<noteq> Some Dir"
    and fs': "fs' = write_node (yamlPath c) (File (yaml_header now @ body))
                  (write_node (yamlPath c) (File (yaml_header now))
                    (write_node (yamlPath c) (File []) fs))"
    unfolding CreateYAMLConfig_None by blast
  have ns: "\<not> src_path c (yamlPath c)"
    using separate_out[OF assms(2), of "yamlPath c" "[''data.yaml'']"] by (simp add: yamlPath_def)
  have "persists fs fs'" unfolding persists_def fs' lookup_after_yaml using nd by auto
  moreover have "src_eq c fs fs'" unfolding src_eq_def fs' lookup_after_yaml using ns by auto
  ultimately show ?thesis by (simp add: ahead_def)
qed

lemma materialize_None:
  "materialize L now cwd c classes tr va fs = (None, fs') \<longleftrightarrow>
     (\<exists>sa sb sc. CreateYOLOStructure c fs = (None, sa)
        \<and> CopyFiles c sa tr ''train'' = (None, sb)
        \<and> CopyFiles c sb va ''val'' = (None, sc)
        \<and> CreateYAMLConfig L now cwd c sc classes = (None, fs'))"
  by (auto simp: materialize_def split: prod.splits option.splits)

lemma CreateYOLOStructure_dirs:
  "\<forall>d \<in> set [OutputDir c @ [''images'', ''train''], OutputDir c @ [''images'', ''val''],
        OutputDir c @ [''labels'', ''train''], OutputDir c @ [''labels'', ''val'']].
     \<exists>ys. d = OutputDir c @ ys"
  by simp

lemma materialize_ahead:
  assumes "materialize L now cwd c classes tr va fs = (None, fs')" "separate c"
  shows "ahead c fs fs'"
proof -
  from assms(1) obtain sa sb sc where
    a: "CreateYOLOStructure c fs = (None, sa)"
    and b: "CopyFiles c sa tr ''train'' = (None, sb)"
    and cc: "CopyFiles c sb va ''val'' = (None, sc)"
    and d: "CreateYAMLConfig L now cwd c sc classes = (None, fs')"
    unfolding materialize_None by blast
  have "ahead c fs sa"
    using a assms(2) CreateYOLOStructure_dirs
    unfolding CreateYOLOStructure_def by (rule MkdirAll_each_ahead)
  moreover have "ahead c sa sb" using b assms(2) unfolding CopyFiles_def by (rule CopyFiles_loop_ahead)
  moreover have "ahead c sb sc" using cc assms(2) unfolding CopyFiles_def by (rule CopyFiles_loop_ahead)
  moreover have "ahead c sc fs'" using d assms(2) by (rule CreateYAMLConfig_ahead)
  ultimately show ?thesis using ahead_trans by blast
qed

lemma materialize_rerun:
  assumes m: "materialize L now cwd c classes tr va fs0 = (None, fs1)"
    and sep: "separate c"
    and srcs: "\<forall>pr \<in> set tr \<union> set va. src_path c (ImagePath pr) \<and> src_path c (LabelPath pr)"
  shows "\<exists>fs2 body.
           materialize L now' cwd c classes tr va fs1 = (None, fs2)
         \<and> (\<forall>p. p \<noteq> yamlPath c \<longrightarrow> lookup fs2 p = lookup fs1 p)
         \<and> lookup fs1 (yamlPath c) = Some (File (yaml_header now @ body))
         \<and> lookup fs2 (yamlPath c) = Some (File (yaml_header now' @ body))"
proof -
  from m obtain sa sb sc where
    a: "CreateYOLOStructure c fs0 = (None, sa)"
    and b: "CopyFiles c sa tr ''train'' = (None, sb)"
    and cc: "CopyFiles c sb va ''val'' = (None, sc)"
    and d: "CreateYAMLConfig L now cwd c sc classes = (None, fs1)"
    unfolding materialize_None by blast
  have ah_c: "ahead c sc fs1" using d sep by (rule CreateYAMLConfig_ahead)
  have ah_b: "ahead c sb fs1"
    using CopyFiles_loop_ahead[OF cc[unfolded CopyFiles_def] sep] ah_c by (rule ahead_trans)
  have ah_a: "ahead c sa fs1"
    using CopyFiles_loop_ahead[OF b[unfolded CopyFiles_def] sep] ah_b by (rule ahead_trans)
  have rel0: "rerun_rel fs1 fs0 fs1" by (simp add: rerun_rel_def)
  from MkdirAll_each_rerun[OF a[unfolded CreateYOLOStructure_def] rel0 ah_a sep CreateYOLOStructure_dirs]
  obtain ta where a2: "CreateYOLOStructure c fs1 = (None, ta)" and rel_a: "rerun_rel fs1 sa ta"
    unfolding CreateYOLOStructure_def by blast
  have s_tr: "\<forall>pr \<in> set tr. src_path c (ImagePath pr) \<and> src_path c (LabelPath pr)"
    and s_va: "\<forall>pr \<in> set va. src_path c (ImagePath pr) \<and> src_path c (LabelPath pr)"
    using srcs by auto
  from CopyFiles_loop_rerun[OF b[unfolded CopyFiles_def] rel_a ah_b sep s_tr]
  obtain tb where b2: "CopyFiles c ta tr ''train'' = (None, tb)" and rel_b: "rerun_rel fs1 sb tb"
    unfolding CopyFiles_def by blast
  from CopyFiles_loop_rerun[OF cc[unfolded CopyFiles_def] rel_b ah_c sep s_va]
  obtain tc where c2: "CopyFiles c tb va ''val'' = (None, tc)" and rel_c: "rerun_rel fs1 sc tc"
    unfolding CopyFiles_def by blast
  from d obtain body where enc: "yaml_encode L (yamlConfig cwd c classes) = Some body"
    and par: "lookup sc (OutputDir c) = Some Dir" and nd: "lookup sc (yamlPath c) \<noteq> Some Dir"
    and fs1: "fs1 = write_node (yamlPath c) (File (yaml_header now @ body))
                  (write_node (yamlPath c) (File (yaml_header now))
                    (write_node (yamlPath c) (File []) sc))"
    unfolding CreateYAMLConfig_None by blast
  have l1: "\<And>q. lookup fs1 q = (if q = yamlPath c then Some (File (yaml_header now @ body)) else lookup sc q)"
    unfolding fs1 by (rule lookup_after_yaml)
  have r1: "\<And>p. lookup tc p = lookup sc p \<or> lookup tc p = lookup fs1 p"
    and r2: "\<And>q. lookup fs1 q = Some Dir \<Longrightarrow> lookup tc q = Some Dir"
    using rel_c by (simp_all add: rerun_rel_def)
  have "OutputDir c \<noteq> yamlPath c" by (simp add: yamlPath_def)
  then have "lookup fs1 (OutputDir c) = Some Dir" using par by (simp add: l1)
  then have par2: "lookup tc (OutputDir c) = Some Dir" by (rule r2)
  have nd2: "lookup tc (yamlPath c) \<noteq> Some Dir" using r1[of "yamlPath c"] nd by (auto simp: l1)
  define fs2 where "fs2 = write_node (yamlPath c) (File (yaml_header now' @ body))
                  (write_node (yamlPath c) (File (yaml_header now'))
                    (write_node (yamlPath c) (File []) tc))"
  have d2: "CreateYAMLConfig L now' cwd c tc classes = (None, fs2)"
    unfolding CreateYAMLConfig_None using enc par2 nd2 fs2_def by blast
  have l2: "\<And>q. lookup fs2 q = (if q = yamlPath c then Some (File (yaml_header now' @ body)) else lookup tc q)"
    unfolding fs2_def by (rule lookup_after_yaml)
  have m2: "materialize L now' cwd c classes tr va fs1 = (None, fs2)"
    unfolding materialize_None using a2 b2 c2 d2 by blast
  have same: "\<forall>p. p \<noteq> yamlPath c \<longrightarrow> lookup fs2 p = lookup fs1 p"
  proof (intro allI impI)
    fix p
    assume p: "p \<noteq> yamlPath c"
    then have "lookup fs1 p = lookup sc p" by (simp add: l1)
    then have "lookup tc p = lookup fs1 p" using r1[of p] by auto
    then show "lookup fs2 p = lookup fs1 p" using p by (simp add: l2)
  qed
  show ?thesis using m2 same l1 l2 by auto
qed

lemma src_path_roots: "src_path c (imagesDir c)" "src_path c (labelsDir c)" "src_path c (classesPath c)"
  by (simp_all add: src_path_def)

lemma ValidateSourceStructure_src_eq:
  "src_eq c fs fs' \<Longrightarrow> ValidateSourceStructure fs' c = ValidateSourceStructure fs c"
  using src_path_roots[of c] by (simp add: ValidateSourceStructure_def src_eq_def)

lemma LoadClasses_src_eq:
  "src_eq c fs fs' \<Longrightarrow> LoadClasses L fs' c = LoadClasses L fs c"
  using src_path_roots[of c] by (simp add: LoadClasses_def open_scan_def src_eq_def)

lemma imagesDir_nonempty: "imagesDir c \<noteq> []"
  by (simp add: imagesDir_def)

lemma key_iff_lookup:
  assumes "prefix (imagesDir c) p"
  shows "p \<in> fst ` set fs \<longleftrightarrow> lookup fs p \<noteq> None"
proof -
  have "p \<noteq> []" using assms imagesDir_nonempty by auto
  then show ?thesis by (simp add: lookup_def map_of_eq_None_iff)
qed

lemma descends_src_eq:
  assumes "src_eq c fs fs'"
  shows "descends fs' (imagesDir c) p = descends fs (imagesDir c) p"
proof -
  have "\<And>q. prefix (imagesDir c) q \<Longrightarrow> lookup fs' q = lookup fs q"
    using assms by (simp add: src_eq_def src_path_def)
  then show ?thesis unfolding descends_def list_all_iff by metis
qed

lemma walk_paths_src_eq:
  assumes "src_eq c fs fs'"
  shows "walk_paths fs' (imagesDir c) = walk_paths fs (imagesDir c)"
proof -
  let ?P = "\<lambda>s p. prefix (imagesDir c) p \<and> descends s (imagesDir c) p"
  have "set (filter (?P fs') (map fst fs')) = set (filter (?P fs) (map fst fs))"
  proof -
    have "\<And>p. prefix (imagesDir c) p \<Longrightarrow> (p \<in> fst ` set fs') = (p \<in> fst ` set fs)"
      using assms by (simp add: key_iff_lookup src_eq_def src_path_def)
    then show ?thesis using descends_src_eq[OF assms] by auto
  qed
  then have "sorted_list_of_set (set (filter (?P fs') (map fst fs')))
           = sorted_list_of_set (set (filter (?P fs) (map fst fs)))" by simp
  then show ?thesis unfolding walk_paths_def by (simp only: sorted_list_of_set_sort_remdups)
qed

lemma walk_paths_prefix: "p \<in> set (walk_paths fs r) \<Longrightarrow> prefix r p"
  by (auto simp: walk_paths_def)

lemma label_path_for_src: "src_path c (label_path_for (labelsDir c) p)"
  by (simp add: src_path_def label_path_for_def)

lemma GetImageLabelPairs_src_eq:
  assumes "src_eq c fs fs'"
  shows "GetImageLabelPairs fs' c = GetImageLabelPairs fs c"
proof -
  have l: "\<And>p. src_path c p \<Longrightarrow> lookup fs' p = lookup fs p"
    using assms by (simp add: src_eq_def)
  have "filter (\<lambda>p. (\<exists>bytes. lookup fs' p = Some (File bytes))
                          \<and> ToLower (Ext (Base p)) \<in> set imageExtensions
                          \<and> lookup fs' (label_path_for (labelsDir c) p) \<noteq> None)
          (walk_paths fs (imagesDir c))
      = filter (\<lambda>p. (\<exists>bytes. lookup fs p = Some (File bytes))
                          \<and> ToLower (Ext (Base p)) \<in> set imageExtensions
                          \<and> lookup fs (label_path_for (labelsDir c) p) \<noteq> None)
          (walk_paths fs (imagesDir c))"
  proof (rule filter_cong[OF refl])
    fix p
    assume "p \<in> set (walk_paths fs (imagesDir c))"
    then have "src_path c p" using walk_paths_prefix by (auto simp: src_path_def)
    then show "((\<exists>bytes. lookup fs' p = Some (File bytes))
                          \<and> ToLower (Ext (Base p)) \<in> set imageExtensions
                          \<and> lookup fs' (label_path_for (labelsDir c) p) \<noteq> None)
         = ((\<exists>bytes. lookup fs p = Some (File bytes))
                          \<and> ToLower (Ext (Base p)) \<in> set imageExtensions
                          \<and> lookup fs (label_path_for (labelsDir c) p) \<noteq> None)"
      using l label_path_for_src[of c p] by simp
  qed
  then show ?thesis
    using l[OF src_path_roots(1)]
    by (simp add: GetImageLabelPairs_def foldl_visit_eq walk_paths_src_eq[OF assms])
qed

lemma GetImageLabelPairs_src_paths:
  assumes "GetImageLabelPairs fs c = Inr pairs" "pr \<in> set pairs"
  shows "src_path c (ImagePath pr) \<and> src_path c (LabelPath pr)"
proof -
  from assms obtain p where "p \<in> set (walk_paths fs (imagesDir c))"
    and pr: "pr = \<lparr>ImagePath = p, LabelPath = label_path_for (labelsDir c) p\<rparr>"
    by (auto simp: GetImageLabelPairs_def foldl_visit_eq split: if_splits)
  then have "src_path c p" using walk_paths_prefix by (auto simp: src_path_def)
  then show ?thesis using label_path_for_src[of c p] by (simp add: pr)
qed

lemma Shuffle_loop_mset:
  "Shuffle_loop intn swap_elems i g xs = Inr (ys, g') \<Longrightarrow> mset ys = mset xs"
proof (induction i arbitrary: g xs)
  case 0
  then show ?case by simp
next
  case (Suc i)
  obtain j g1 where draw: "intn g (Suc i + 1) = (j, g1)" by (cases "intn g (Suc i + 1)")
  from Suc.prems draw obtain zs where
    sw: "swap_elems (Suc i) j xs = Inr zs"
    and rest: "Shuffle_loop intn swap_elems i g1 zs = Inr (ys, g')"
    by (auto split: sum.splits)
  show ?case using Suc.IH[OF rest] swap_elems_mset[OF sw] by simp
qed

lemma SplitDataset_subset:
  assumes "SplitDataset L c g pairs = Inr ((tr, va), g')"
  shows "set tr \<union> set va \<subseteq> set pairs"
proof -
  from assms obtain ys k where
    sh: "Shuffle (rand_intn L) (length pairs) swap_elems (rand_Seed L (Seed c)) pairs = Inr (ys, g')"
    and tr: "tr = take k ys" and va: "va = drop k ys"
    by (auto simp: SplitDataset_def Let_def split: sum.splits option.splits if_splits)
  have "mset ys = mset pairs" using sh unfolding Shuffle_def by (rule Shuffle_loop_mset)
  then have "set ys = set pairs" by (rule mset_eq_setD)
  then show ?thesis unfolding tr va using set_take_subset set_drop_subset by fast
qed

lemma Convert_Done:
  "Convert L now cwd c (g, fs) = (Done, g', fs') \<longleftrightarrow>
     (\<exists>classes pairs tr va.
        ValidateSourceStructure fs c = None
      \<and> LoadClasses L fs c = Inr classes
      \<and> GetImageLabelPairs fs c = Inr pairs \<and> pairs \<noteq> []
      \<and> SplitDataset L c g pairs = Inr ((tr, va), g')
      \<and> materialize L now cwd c classes tr va fs = (None, fs'))"
proof (cases "ValidateSourceStructure fs c")
  case (Some e)
  then show ?thesis by (simp add: Convert_def)
next
  case None
  note v = None
  show ?thesis
  proof (cases "LoadClasses L fs c")
    case (Inl e)
    then show ?thesis using v by (simp add: Convert_def)
  next
    case (Inr classes)
    note l = Inr
    show ?thesis
    proof (cases "GetImageLabelPairs fs c")
      case (Inl e)
      then show ?thesis using v l by (simp add: Convert_def)
    next
      case (Inr pairs)
      note p = Inr
      show ?thesis
      proof (cases "SplitDataset L c g pairs")
        case (Inl f)
        then show ?thesis using v l p by (simp add: Convert_def ValidateLabels_def)
      next
        case (Inr r)
        obtain tr va g1 where r: "r = ((tr, va), g1)" by (cases r) auto
        obtain eo fs1 where m: "materialize L now cwd c classes tr va fs = (eo, fs1)"
          by (cases "materialize L now cwd c classes tr va fs")
        show ?thesis using v l p Inr r m
          by (cases eo) (auto simp: Convert_def ValidateLabels_def)
      qed
    qed
  qed
qed

lemma Convert_rerun_clock:
  assumes sep: "separate c"
    and run1: "Convert L now cwd c (g0, fs0) = (Done, g1, fs1)"
  shows "\<exists>fs2 body.
           Convert L now' cwd c (g, fs1) = (Done, g1, fs2)
         \<and> (\<forall>p. p \<noteq> yamlPath c \<longrightarrow> lookup fs2 p = lookup fs1 p)
         \<and> lookup fs1 (yamlPath c) = Some (File (yaml_header now @ body))
         \<and> lookup fs2 (yamlPath c) = Some (File (yaml_header now' @ body))"
proof -
  from run1 obtain classes pairs tr va where
    v: "ValidateSourceStructure fs0 c = None"
    and l: "LoadClasses L fs0 c = Inr classes"
    and p: "GetImageLabelPairs fs0 c = Inr pairs" and ne: "pairs \<noteq> []"
    and s: "SplitDataset L c g0 pairs = Inr ((tr, va), g1)"
    and m: "materialize L now cwd c classes tr va fs0 = (None, fs1)"
    unfolding Convert_Done by blast
  have "ahead c fs0 fs1" using m sep by (rule materialize_ahead)
  then have eq: "src_eq c fs0 fs1" by (simp add: ahead_def)
  have v2: "ValidateSourceStructure fs1 c = None" by (simp add: ValidateSourceStructure_src_eq[OF eq] v)
  have l2: "LoadClasses L fs1 c = Inr classes" by (simp add: LoadClasses_src_eq[OF eq] l)
  have p2: "GetImageLabelPairs fs1 c = Inr pairs" by (simp add: GetImageLabelPairs_src_eq[OF eq] p)
  have s2: "SplitDataset L c g pairs = Inr ((tr, va), g1)" using s by (simp add: SplitDataset_def)
  have srcs: "\<forall>pr \<in> set tr \<union> set va. src_path c (ImagePath pr) \<and> src_path c (LabelPath pr)"
    using SplitDataset_subset[OF s] GetImageLabelPairs_src_paths[OF p] by blast
  from materialize_rerun[OF m sep srcs, of now']
  obtain fs2 body where
    m2: "materialize L now' cwd c classes tr va fs1 = (None, fs2)"
    and same: "\<forall>p. p \<noteq> yamlPath c \<longrightarrow> lookup fs2 p = lookup fs1 p"
    and y1: "lookup fs1 (yamlPath c) = Some (File (yaml_header now @ body))"
    and y2: "lookup fs2 (yamlPath c) = Some (File (yaml_header now' @ body))"
    by blast
  have run2: "Convert L now' cwd c (g, fs1) = (Done, g1, fs2)"
    unfolding Convert_Done using v2 l2 p2 ne s2 m2 by blast
  show ?thesis using run2 same y1 y2 by blast
qed

lemma upper_separate: "separate upper_config"
  by (simp add: separate_def upper_config_def imagesDir_def labelsDir_def classesPath_def)

lemma upper_vss: "ValidateSourceStructure upper_fs upper_config = None"
  by (simp add: ValidateSourceStructure_def imagesDir_def labelsDir_def classesPath_def
      upper_config_def lookup_def upper_fs_def)

lemma upper_classes: "LoadClasses go_lib upper_fs upper_config = Inr [''book'']"
  by (simp add: LoadClasses_def classesPath_def upper_config_def open_scan_def lookup_def
      upper_fs_def go_lib_def go_scan_lines_def LF_def dropCR_def CR_def TrimSpace_def is_space_def)

lemma upper_pairs:
  "GetImageLabelPairs upper_fs upper_config
     = Inr [\<lparr>ImagePath = [''images'', ''photo.JPG''], LabelPath = [''labels'', ''photo.JPG.txt'']\<rparr>]"
proof -
  have look: "lookup upper_fs [''images''] = Some Dir"
    "lookup upper_fs [''images'', ''photo.JPG''] = Some (File ''fake image data'')"
    "lookup upper_fs [''labels'', ''photo.JPG.txt''] = Some (File [])"
    by (simp_all add: lookup_def upper_fs_def)
  have ts: "TrimSuffix ''photo.JPG'' ''.jpg'' = ''photo.JPG''"
    by (simp add: TrimSuffix_def suffix_def)
  show ?thesis
    by (simp add: GetImageLabelPairs_def imagesDir_def labelsDir_def upper_config_def walk_upper
        visit_def look Base_def Ext_photo ToLower_JPG imageExtensions_def ts Let_def)
qed

lemma upper_trainCount: "trainCount upper_config 1 = Some 0"
proof -
  have one: "float64_of_int 1 = Finite 1"
    using round64_of_nat[of 1] by (simp add: float64_of_int_def)
  have k: "scale_up 1074 \<bar>7205759403792794 / 2 ^ 53 :: rat\<bar> = 53" by (simp add: scale_up_numeral)
  have m: "round_half_even (\<bar>7205759403792794 / 2 ^ 53\<bar> * 2 ^ 53) = 7205759403792794"
    by (rule rhe_near) simp
  have r: "round64 (7205759403792794 / 2 ^ 53) = Finite (7205759403792794 / 2 ^ 53)"
    using round64_small[OF _ _ k m] by simp
  have t: "trunc (7205759403792794 / 2 ^ 53) = 0" by (simp add: trunc_def floor_unique)
  have "f64_mul (float64_of_int 1) (round64 (4 / 5)) = Finite (7205759403792794 / 2 ^ 53)"
    using r by (simp add: one round64_four_fifths)
  then show ?thesis using t by (simp add: trainCount_def upper_config_def Let_def)
qed

lemma upper_split:
  "SplitDataset go_lib upper_config g
     [\<lparr>ImagePath = [''images'', ''photo.JPG''], LabelPath = [''labels'', ''photo.JPG.txt'']\<rparr>]
   = Inr (([], [\<lparr>ImagePath = [''images'', ''photo.JPG''],
                 LabelPath = [''labels'', ''photo.JPG.txt'']\<rparr>]), 42)"
  using upper_trainCount
  by (simp add: SplitDataset_def Let_def Shuffle_def go_lib_def lcg_Seed_def upper_config_def)

lemma upper_materialize:
  "fst (materialize go_lib now [''home''] upper_config [''book''] []
          [\<lparr>ImagePath = [''images'', ''photo.JPG''], LabelPath = [''labels'', ''photo.JPG.txt'']\<rparr>]
          upper_fs) = None"
  by (simp add: materialize_def CreateYOLOStructure_def CopyFiles_def CreateYAMLConfig_def
      MkdirAll.simps copyFile_def create_file_def lookup_def write_node_def upper_config_def
      upper_fs_def Base_def Let_def go_lib_def go_yaml_encode_def)

lemma first_run_done: "fst first_run = Done"
proof -
  obtain eo fs1 where m: "materialize go_lib ''2025-09-22T10:00:00Z'' [''home''] upper_config [''book''] []
          [\<lparr>ImagePath = [''images'', ''photo.JPG''], LabelPath = [''labels'', ''photo.JPG.txt'']\<rparr>]
          upper_fs = (eo, fs1)"
    by (cases "materialize go_lib ''2025-09-22T10:00:00Z'' [''home''] upper_config [''book''] []
          [\<lparr>ImagePath = [''images'', ''photo.JPG''], LabelPath = [''labels'', ''photo.JPG.txt'']\<rparr>]
          upper_fs")
  then have "eo = None" using upper_materialize[of "''2025-09-22T10:00:00Z''"] by simp
  then have "first_run = (Done, 42, fs1)"
    unfolding first_run_def Convert_Done
    using upper_vss upper_classes upper_pairs upper_split[of 0] m by auto
  then show ?thesis by (metis fst_conv)
qed


text \<open>
  C3, as the claim states it, fails: the configuration artifact is not
  byte-identical between two runs. Its header carries \<^verbatim>\<open>time.Now()\<close>; a second run
  one second after the first, on the same source, output path, fraction and seed,
  writes a different \<^verbatim>\<open>data.yaml\<close>.
\<close>

theorem data_yaml_differs_between_runs:
  "fst first_run = Done \<and> fst second_run = Done
   \<and> lookup (snd (snd second_run)) (yamlPath upper_config)
       \<noteq> lookup (snd (snd first_run)) (yamlPath upper_config)"
proof -
  obtain g1 fs1 where r1: "first_run = (Done, g1, fs1)"
    using first_run_done by (metis prod.collapse)
  then have run1: "Convert go_lib ''2025-09-22T10:00:00Z'' [''home''] upper_config (0, upper_fs)
      = (Done, g1, fs1)" unfolding first_run_def .
  from Convert_rerun_clock[OF upper_separate run1, of "''2025-09-22T10:00:01Z''" g1]
  obtain fs2 body where
    run2: "Convert go_lib ''2025-09-22T10:00:01Z'' [''home''] upper_config (g1, fs1) = (Done, g1, fs2)"
    and y1: "lookup fs1 (yamlPath upper_config) = Some (File (yaml_header ''2025-09-22T10:00:00Z'' @ body))"
    and y2: "lookup fs2 (yamlPath upper_config) = Some (File (yaml_header ''2025-09-22T10:00:01Z'' @ body))"
    by blast
  have r2: "second_run = (Done, g1, fs2)" unfolding second_run_def r1 using run2 by simp
  have "yaml_header ''2025-09-22T10:00:00Z'' \<noteq> yaml_header ''2025-09-22T10:00:01Z''"
    by (simp add: yaml_header_def)
  then have "lookup fs2 (yamlPath upper_config) \<noteq> lookup fs1 (yamlPath upper_config)"
    by (simp add: y1 y2)
  then show ?thesis unfolding r1 r2 by simp
qed


text \<open>
  C3, amended. Let the output directory be separate from the source, and let a
  first run of \<^verbatim>\<open>Convert\<close> succeed. A second run with the same source tree, output
  path, train fraction and seed, whatever the state of the random source, succeeds
  too, and its output tree holds at every path what the first left there, except
  for the configuration artifact, whose two versions differ in the time of the
  header only; when both runs read the same time the two trees are identical.
\<close>

theorem Convert_rerun:
  assumes sep: "separate c"
    and run1: "Convert L now cwd c (g0, fs0) = (Done, g1, fs1)"
  shows "\<exists>fs2 body.
           Convert L now' cwd c (g, fs1) = (Done, g1, fs2)
         \<and> (\<forall>p. p \<noteq> yamlPath c \<longrightarrow> lookup fs2 p = lookup fs1 p)
         \<and> lookup fs1 (yamlPath c) = Some (File (yaml_header now @ body))
         \<and> lookup fs2 (yamlPath c) = Some (File (yaml_header now' @ body))
         \<and> (now' = now \<longrightarrow> (\<forall>p. lookup fs2 p = lookup fs1 p))"
proof -
  from Convert_rerun_clock[OF assms, of now' g]
  obtain fs2 body where
    run2: "Convert L now' cwd c (g, fs1) = (Done, g1, fs2)"
    and same: "\<forall>p. p \<noteq> yamlPath c \<longrightarrow> lookup fs2 p = lookup fs1 p"
    and y1: "lookup fs1 (yamlPath c) = Some (File (yaml_header now @ body))"
    and y2: "lookup fs2 (yamlPath c) = Some (File (yaml_header now' @ body))"
    by blast
  have "now' = now \<longrightarrow> (\<forall>p. lookup fs2 p = lookup fs1 p)"
    using same y1 y2 by metis
  then show ?thesis using run2 same y1 y2 by blast
qed

theorem Convert_rerun_witness:
  "separate upper_config
   \<and> (\<exists>g1 fs1 fs2.
         Convert go_lib ''2025-09-22T10:00:00Z'' [''home''] upper_config (0, upper_fs) = (Done, g1, fs1)
       \<and> Convert go_lib ''2025-09-22T10:00:00Z'' [''home''] upper_config (7, fs1) = (Done, g1, fs2)
       \<and> (\<forall>p. lookup fs2 p = lookup fs1 p))"
proof -
  obtain g1 fs1 where r1: "first_run = (Done, g1, fs1)"
    using first_run_done by (metis prod.collapse)
  then have run1: "Convert go_lib ''2025-09-22T10:00:00Z'' [''home''] upper_config (0, upper_fs)
      = (Done, g1, fs1)" unfolding first_run_def .
  from Convert_rerun[OF upper_separate run1, of "''2025-09-22T10:00:00Z''" 7]
  obtain fs2 where
    "Convert go_lib ''2025-09-22T10:00:00Z'' [''home''] upper_config (7, fs1) = (Done, g1, fs2)"
    "\<forall>p. lookup fs2 p = lookup fs1 p"
    by blast
  then show ?thesis using upper_separate run1 by blast
qed



subsection \<open>The repository's tests, on the model\<close>

text \<open>The records that \<^verbatim>\<open>TestGetImageLabelPairs\<close> expects for the fixture.\<close>

lemma walk_test_fs:
  "walk_paths test_fs [''tmp'', ''images''] =
     [[''tmp'', ''images''], [''tmp'', ''images'', ''image1.jpg''],
      [''tmp'', ''images'', ''image2.png''], [''tmp'', ''images'', ''image3.jpeg'']]"
  by (simp add: walk_paths_def test_fs_def descends_def lookup_def)

lemma GetImageLabelPairs_test_fixture: "GetImageLabelPairs test_fs test_config = Inr test_pairs"
proof -
  have e: "ToLower (Ext ''image1.jpg'') = ''.jpg''" "ToLower (Ext ''image2.png'') = ''.png''"
    "ToLower (Ext ''image3.jpeg'') = ''.jpeg''"
    by (simp_all add: Ext_def ToLower_def to_lower_char_def)
  have t: "TrimSuffix ''image1.jpg'' ''.jpg'' = ''image1''"
    "TrimSuffix ''image2.png'' ''.png'' = ''image2''"
    "TrimSuffix ''image3.jpeg'' ''.jpeg'' = ''image3''"
    by (simp_all add: TrimSuffix_def suffix_def)
  have l: "lookup test_fs [''tmp'', ''images''] = Some Dir"
    "lookup test_fs [''tmp'', ''images'', ''image1.jpg''] = Some (File ''fake image data'')"
    "lookup test_fs [''tmp'', ''images'', ''image2.png''] = Some (File ''fake image data'')"
    "lookup test_fs [''tmp'', ''images'', ''image3.jpeg''] = Some (File ''fake image data'')"
    "lookup test_fs [''tmp'', ''labels'', ''image1.txt''] \<noteq> None"
    "lookup test_fs [''tmp'', ''labels'', ''image2.txt''] \<noteq> None"
    "lookup test_fs [''tmp'', ''labels'', ''image3.txt''] \<noteq> None"
    by (simp_all add: lookup_def test_fs_def)
  show ?thesis
    by (simp add: GetImageLabelPairs_def imagesDir_def labelsDir_def test_config_def walk_test_fs
        visit_def Base_def e t l imageExtensions_def Let_def test_pairs_def)
qed

end
